theory Spec2Isabelle
  imports Complex_Main "HOL-Library.Word"
begin

section \<open>Event dispatcher of the WebSocket manager\<close>

text \<open>
  Source: \<^verbatim>\<open>src/src/utils/websocket.js\<close>, methods \<^verbatim>\<open>on\<close>, \<^verbatim>\<open>off\<close>, \<^verbatim>\<open>emit\<close>.
  The field \<^verbatim>\<open>callbacks\<close> is a JavaScript \<^verbatim>\<open>Map\<close> from an event name to an array of
  functions. A function value is compared by reference (\<^verbatim>\<open>indexOf\<close> uses strict
  equality), so a callback is represented by an identifier.
\<close>

type_synonym callback = nat

type_synonym registry = "string \<rightharpoonup> callback list"

text \<open>\<^verbatim>\<open>Array.prototype.indexOf\<close>: the index of the first equal element, or -1.\<close>

fun indexOf_from :: "'a list \<Rightarrow> 'a \<Rightarrow> nat \<Rightarrow> int" where
  "indexOf_from [] x k = - 1"
| "indexOf_from (y # ys) x k = (if y = x then int k else indexOf_from ys x (Suc k))"

definition indexOf :: "'a list \<Rightarrow> 'a \<Rightarrow> int" where
  "indexOf xs x = indexOf_from xs x 0"

text \<open>\<^verbatim>\<open>xs.splice(index, 1)\<close> for an index inside the array: the element there is removed.\<close>

definition splice1 :: "'a list \<Rightarrow> nat \<Rightarrow> 'a list" where
  "splice1 xs index = take index xs @ drop (Suc index) xs"

text \<open>
  \<^verbatim>\<open>on(event, callback)\<close>: an unknown event first gets an empty array, then the callback
  is pushed.
\<close>

definition on :: "string \<Rightarrow> callback \<Rightarrow> registry \<Rightarrow> registry" where
  "on event callback cbs =
     (let cbs1 = (if cbs event = None then cbs(event \<mapsto> []) else cbs)
      in case cbs1 event of
           None \<Rightarrow> cbs1
         | Some callbacks \<Rightarrow> cbs1(event \<mapsto> callbacks @ [callback]))"

text \<open>
  \<^verbatim>\<open>off(event, callback)\<close>: for a known event, the first occurrence found by
  \<^verbatim>\<open>indexOf\<close> is spliced out; nothing happens when the index is -1 or the event is
  unknown.
\<close>

definition off :: "string \<Rightarrow> callback \<Rightarrow> registry \<Rightarrow> registry" where
  "off event callback cbs =
     (case cbs event of
        None \<Rightarrow> cbs
      | Some callbacks \<Rightarrow>
          (let index = indexOf callbacks callback
           in if index > - 1 then cbs(event \<mapsto> splice1 callbacks (nat index)) else cbs))"

text \<open>
  \<^verbatim>\<open>emit(event, data)\<close> runs \<^verbatim>\<open>forEach\<close> over the event's array; each call sits in its
  own \<^verbatim>\<open>try\<close>/\<^verbatim>\<open>catch\<close>, so a callback that throws is logged and the iteration goes on.
  \<open>invoked\<close> is the sequence of callbacks that \<^verbatim>\<open>emit\<close> calls, in order.
\<close>

definition invoked :: "registry \<Rightarrow> string \<Rightarrow> callback list" where
  "invoked cbs event = (case cbs event of None \<Rightarrow> [] | Some callbacks \<Rightarrow> callbacks)"

text \<open>The subscriber list of an event; an unknown event has none.\<close>

definition subscribers :: "registry \<Rightarrow> string \<Rightarrow> callback list" where
  "subscribers cbs event = (case cbs event of None \<Rightarrow> [] | Some callbacks \<Rightarrow> callbacks)"

text \<open>A registry used in the concrete evaluations: two callbacks under one event.\<close>

definition registry_ab :: registry where
  "registry_ab = Map.empty(''message'' \<mapsto> [1, 2])"


section \<open>The WebSocket manager\<close>

text \<open>
  Source: \<^verbatim>\<open>src/src/utils/websocket.js\<close>, class \<^verbatim>\<open>WebSocketManager\<close>, and the
  configuration module it imports (\<^verbatim>\<open>WS_CONFIG\<close>, \<^verbatim>\<open>WS_OPTIONS\<close>,
  \<^verbatim>\<open>WS_MESSAGE_TYPES\<close>).
\<close>

record ws_options =
  autoReconnect :: bool
  reconnectInterval :: nat
  reconnectAttempts :: nat
  heartbeat :: bool
  heartbeatInterval :: nat
  heartbeatTimeout :: nat

definition WS_OPTIONS :: ws_options where
  "WS_OPTIONS = \<lparr>autoReconnect = True, reconnectInterval = 3000, reconnectAttempts = 5,
     heartbeat = True, heartbeatInterval = 30000, heartbeatTimeout = 5000\<rparr>"

text \<open>\<^verbatim>\<open>WS_CONFIG\<close> of the development mode, the fallback of the configuration module.\<close>

definition WS_BASE_URL :: string where
  "WS_BASE_URL = ''ws://localhost:8000''"

definition WS_PATH :: string where
  "WS_PATH = ''/ws''"

text \<open>
  The browser's objects. A \<^verbatim>\<open>WebSocket\<close> is an entry of the store \<open>sockets\<close>, addressed
  by its index and holding its \<^verbatim>\<open>readyState\<close>; every socket the manager creates gets the
  same four handlers, which are closures over the manager and not over the socket. A timer
  made by \<^verbatim>\<open>setTimeout\<close> or \<^verbatim>\<open>setInterval\<close> is an entry of \<open>timers\<close>: the closure it
  runs, its delay in milliseconds, and whether it is still armed.
\<close>

datatype readyState = CONNECTING | OPEN | CLOSING | CLOSED

datatype timer_task = HeartbeatTask | ReconnectTask

record timer =
  task :: timer_task
  delay :: nat
  active :: bool

text \<open>
  What is sent: the heartbeat's \<^verbatim>\<open>{type: 'ping', timestamp: Date.now()}\<close>, or a caller's
  payload. What arrives: data whose handling throws (\<^verbatim>\<open>JSON.parse\<close> fails), or a message
  with an optional \<^verbatim>\<open>type\<close> tag.
\<close>

datatype outbound = Ping nat | Payload string

datatype inbound = Unparsable | Envelope "string option"

datatype effect =
    Warned
  | Emitted string "callback list"
  | Transmitted nat outbound

datatype ws_error = NotConnected

text \<open>
  The promise \<^verbatim>\<open>connect\<close> returns: already resolved, already rejected (the constructor
  threw), or pending on the open or error event of the socket just created.
\<close>

datatype promise = Resolved | Rejected | Pending nat

record WebSocketManager =
  ws :: "nat option"
  url :: string
  reconnectTimer :: "nat option"
  heartbeatTimer :: "nat option"
  reconnectCount :: nat
  callbacks :: registry
  isManualClose :: bool

record runtime = WebSocketManager +
  sockets :: "readyState list"
  timers :: "timer list"
  trace :: "effect list"

definition constructor :: runtime where
  "constructor = \<lparr>ws = None, url = [], reconnectTimer = None, heartbeatTimer = None,
     reconnectCount = 0, callbacks = Map.empty, isManualClose = False,
     sockets = [], timers = [], trace = []\<rparr>"

text \<open>\<^verbatim>\<open>this.ws && this.ws.readyState === WebSocket.OPEN\<close>\<close>

definition isConnected :: "runtime \<Rightarrow> bool" where
  "isConnected s =
     (case ws s of None \<Rightarrow> False | Some i \<Rightarrow> i < length (sockets s) \<and> sockets s ! i = OPEN)"

text \<open>
  \<^verbatim>\<open>emit\<close> inside the manager: the callbacks registered under the event are called in
  order. Callbacks are opaque here: they are recorded in the trace and do not call back into
  the manager.
\<close>

definition emit :: "string \<Rightarrow> runtime \<Rightarrow> runtime" where
  "emit event s = s\<lparr>trace := trace s @ [Emitted event (invoked (callbacks s) event)]\<rparr>"

text \<open>\<^verbatim>\<open>setTimeout\<close>/\<^verbatim>\<open>setInterval\<close> return a fresh handle; clearing a handle disarms it.\<close>

definition setTimer :: "timer_task \<Rightarrow> nat \<Rightarrow> runtime \<Rightarrow> runtime" where
  "setTimer f ms s = s\<lparr>timers := timers s @ [\<lparr>task = f, delay = ms, active = True\<rparr>]\<rparr>"

definition clearTimer :: "nat \<Rightarrow> runtime \<Rightarrow> runtime" where
  "clearTimer h s =
     (if h < length (timers s)
      then s\<lparr>timers := (timers s)[h := (timers s ! h)\<lparr>active := False\<rparr>]\<rparr>
      else s)"

definition send :: "outbound \<Rightarrow> runtime \<Rightarrow> ws_error + runtime" where
  "send message s =
     (case ws s of
        None \<Rightarrow> Inl NotConnected
      | Some i \<Rightarrow>
          if i < length (sockets s) \<and> sockets s ! i = OPEN
          then Inr (s\<lparr>trace := trace s @ [Transmitted i message]\<rparr>)
          else Inl NotConnected)"

definition startHeartbeat :: "runtime \<Rightarrow> runtime" where
  "startHeartbeat s =
     (if \<not> heartbeat WS_OPTIONS then s
      else (setTimer HeartbeatTask (heartbeatInterval WS_OPTIONS) s)
             \<lparr>heartbeatTimer := Some (length (timers s))\<rparr>)"

text \<open>The closure given to \<^verbatim>\<open>setInterval\<close> in \<^verbatim>\<open>startHeartbeat\<close>, run at time \<open>now\<close>.\<close>

definition heartbeatTick :: "nat \<Rightarrow> runtime \<Rightarrow> runtime" where
  "heartbeatTick now s =
     (if isConnected s
      then (case send (Ping now) s of Inl e \<Rightarrow> s | Inr s' \<Rightarrow> s')
      else s)"

definition stopHeartbeat :: "runtime \<Rightarrow> runtime" where
  "stopHeartbeat s =
     (case heartbeatTimer s of
        None \<Rightarrow> s
      | Some h \<Rightarrow> (clearTimer h s)\<lparr>heartbeatTimer := None\<rparr>)"

definition attemptReconnect :: "runtime \<Rightarrow> runtime" where
  "attemptReconnect s =
     (if reconnectCount s \<ge> reconnectAttempts WS_OPTIONS
      then emit ''reconnectFailed'' s
      else (let s1 = s\<lparr>reconnectCount := reconnectCount s + 1\<rparr>
            in (setTimer ReconnectTask (reconnectInterval WS_OPTIONS) s1)
                 \<lparr>reconnectTimer := Some (length (timers s1))\<rparr>))"

text \<open>
  \<^verbatim>\<open>connect(path)\<close>. \<open>url_ok\<close> says for which addresses \<^verbatim>\<open>new WebSocket(url)\<close> returns
  rather than throws; when it throws, the \<^verbatim>\<open>catch\<close> rejects and \<^verbatim>\<open>this.ws\<close> keeps its
  old value. The result is the new state and the promise returned.
\<close>

definition connect :: "(string \<Rightarrow> bool) \<Rightarrow> string \<Rightarrow> runtime \<Rightarrow> runtime \<times> promise" where
  "connect url_ok path s =
     (if isConnected s then (s\<lparr>trace := trace s @ [Warned]\<rparr>, Resolved)
      else (let s1 = s\<lparr>url := WS_BASE_URL @ path, isManualClose := False\<rparr>
            in if url_ok (url s1)
               then (s1\<lparr>sockets := sockets s1 @ [CONNECTING], ws := Some (length (sockets s1))\<rparr>,
                     Pending (length (sockets s1)))
               else (s1, Rejected)))"

definition onopen :: "runtime \<Rightarrow> runtime" where
  "onopen s = emit ''open'' (startHeartbeat (s\<lparr>reconnectCount := 0\<rparr>))"

definition handleMessage :: "inbound \<Rightarrow> runtime \<Rightarrow> runtime" where
  "handleMessage data s =
     (case data of
        Unparsable \<Rightarrow> emit ''error'' s
      | Envelope None \<Rightarrow> emit ''message'' s
      | Envelope (Some t) \<Rightarrow> emit ''message'' (if t \<noteq> [] then emit t s else s))"

definition onerror :: "runtime \<Rightarrow> runtime" where
  "onerror s = emit ''error'' s"

definition onclose :: "runtime \<Rightarrow> runtime" where
  "onclose s =
     (let s1 = emit ''close'' (stopHeartbeat s)
      in if \<not> isManualClose s1 \<and> autoReconnect WS_OPTIONS then attemptReconnect s1 else s1)"

text \<open>\<^verbatim>\<open>WebSocket.close()\<close>: a connecting or open socket starts closing.\<close>

definition socket_close :: "readyState \<Rightarrow> readyState" where
  "socket_close r = (case r of CONNECTING \<Rightarrow> CLOSING | OPEN \<Rightarrow> CLOSING | _ \<Rightarrow> r)"

definition close :: "runtime \<Rightarrow> runtime" where
  "close s =
     (let s1 = stopHeartbeat (s\<lparr>isManualClose := True\<rparr>);
          s2 = (case reconnectTimer s1 of None \<Rightarrow> s1 | Some h \<Rightarrow> clearTimer h s1)
      in case ws s2 of
           None \<Rightarrow> s2
         | Some i \<Rightarrow>
             s2\<lparr>sockets := (if i < length (sockets s2)
                             then (sockets s2)[i := socket_close (sockets s2 ! i)]
                             else sockets s2),
                ws := None\<rparr>)"

text \<open>
  What can happen to a manager: a method is called, a socket delivers an event to its
  handler, or a timer fires (\<open>Timer_fire h now\<close>, with the clock's reading). A socket
  opens only while connecting, delivers messages only while open, and reports its close
  once; the open and the close event change \<^verbatim>\<open>readyState\<close> in the same task as the
  handler runs. A timeout fires once, an interval stays armed.
\<close>

datatype event =
    Call_connect string
  | Call_close
  | Call_on string callback
  | Call_off string callback
  | Call_send outbound
  | Socket_open nat
  | Socket_message nat inbound
  | Socket_error nat
  | Socket_close nat
  | Timer_fire nat nat

fun step :: "(string \<Rightarrow> bool) \<Rightarrow> runtime \<Rightarrow> event \<Rightarrow> runtime" where
  "step url_ok s (Call_connect path) = fst (connect url_ok path s)"
| "step url_ok s Call_close = close s"
| "step url_ok s (Call_on e c) = s\<lparr>callbacks := on e c (callbacks s)\<rparr>"
| "step url_ok s (Call_off e c) = s\<lparr>callbacks := off e c (callbacks s)\<rparr>"
| "step url_ok s (Call_send m) = (case send m s of Inl err \<Rightarrow> s | Inr s' \<Rightarrow> s')"
| "step url_ok s (Socket_open i) =
     (if i < length (sockets s) \<and> sockets s ! i = CONNECTING
      then onopen (s\<lparr>sockets := (sockets s)[i := OPEN]\<rparr>)
      else s)"
| "step url_ok s (Socket_message i d) =
     (if i < length (sockets s) \<and> sockets s ! i = OPEN then handleMessage d s else s)"
| "step url_ok s (Socket_error i) =
     (if i < length (sockets s) \<and> sockets s ! i \<noteq> CLOSED then onerror s else s)"
| "step url_ok s (Socket_close i) =
     (if i < length (sockets s) \<and> sockets s ! i \<noteq> CLOSED
      then onclose (s\<lparr>sockets := (sockets s)[i := CLOSED]\<rparr>)
      else s)"
| "step url_ok s (Timer_fire h now) =
     (if h < length (timers s) \<and> active (timers s ! h)
      then (case task (timers s ! h) of
              HeartbeatTask \<Rightarrow> heartbeatTick now s
            | ReconnectTask \<Rightarrow>
                fst (connect url_ok WS_PATH
                       (s\<lparr>timers := (timers s)[h := (timers s ! h)\<lparr>active := False\<rparr>]\<rparr>)))
      else s)"

fun run :: "(string \<Rightarrow> bool) \<Rightarrow> runtime \<Rightarrow> event list \<Rightarrow> runtime" where
  "run url_ok s [] = s"
| "run url_ok s (e # es) = run url_ok (step url_ok s e) es"

text \<open>Observations on a state.\<close>

definition live :: "runtime \<Rightarrow> nat" where
  "live s = length (filter (\<lambda>r. r = CONNECTING \<or> r = OPEN) (sockets s))"

definition heartbeat_armed :: "runtime \<Rightarrow> bool" where
  "heartbeat_armed s = list_ex (\<lambda>t. task t = HeartbeatTask \<and> active t) (timers s)"


definition any_url :: "string \<Rightarrow> bool" where
  "any_url u = True"

definition no_url :: "string \<Rightarrow> bool" where
  "no_url u = False"


subsection \<open>Runs with one socket in flight\<close>

text \<open>
  A run is serial when \<^verbatim>\<open>connect\<close>, called by the application or by the reconnect timer, is
  only entered while the current socket is open (where it returns at once) or after every
  socket created so far has reported its close.
\<close>

definition all_closed :: "runtime \<Rightarrow> bool" where
  "all_closed s = list_all (\<lambda>r. r = CLOSED) (sockets s)"

fun admissible :: "runtime \<Rightarrow> event \<Rightarrow> bool" where
  "admissible s (Call_connect path) = (isConnected s \<or> all_closed s)"
| "admissible s (Timer_fire h now) =
     (if h < length (timers s) \<and> active (timers s ! h) \<and> task (timers s ! h) = ReconnectTask
      then isConnected s \<or> all_closed s else True)"
| "admissible s e = True"

fun serial :: "(string \<Rightarrow> bool) \<Rightarrow> runtime \<Rightarrow> event list \<Rightarrow> bool" where
  "serial url_ok s [] = True"
| "serial url_ok s (e # es) = (admissible s e \<and> serial url_ok (step url_ok s e) es)"

text \<open>
  Along serial runs: every socket but the newest is closed, \<^verbatim>\<open>this.ws\<close> is the newest
  socket or null, and when it is null no socket is connecting or open (\<open>one_socket\<close>); the
  two timer handles refer to timers of their own kind (\<open>handles_ok\<close>); and the armed
  heartbeat timers are exactly the one behind \<^verbatim>\<open>this.heartbeatTimer\<close>, which is set
  exactly while the current socket is open (\<open>beat_ok\<close>).
\<close>

definition one_socket :: "runtime \<Rightarrow> bool" where
  "one_socket s \<longleftrightarrow>
     (\<forall>i. Suc i < length (sockets s) \<longrightarrow> sockets s ! i = CLOSED)
   \<and> (\<forall>i. ws s = Some i \<longrightarrow> Suc i = length (sockets s))
   \<and> (\<forall>i. ws s = None \<and> i < length (sockets s) \<longrightarrow>
          sockets s ! i = CLOSING \<or> sockets s ! i = CLOSED)"

definition handles_ok :: "runtime \<Rightarrow> bool" where
  "handles_ok s \<longleftrightarrow>
     (\<forall>h. heartbeatTimer s = Some h \<longrightarrow> h < length (timers s) \<and> task (timers s ! h) = HeartbeatTask)
   \<and> (\<forall>h. reconnectTimer s = Some h \<longrightarrow> h < length (timers s) \<and> task (timers s ! h) = ReconnectTask)"

definition beat_ok :: "runtime \<Rightarrow> bool" where
  "beat_ok s \<longleftrightarrow>
     (\<forall>h. h < length (timers s) \<and> task (timers s ! h) = HeartbeatTask \<and> active (timers s ! h)
          \<longrightarrow> isConnected s \<and> heartbeatTimer s = Some h)
   \<and> (\<forall>h. isConnected s \<and> heartbeatTimer s = Some h \<longrightarrow> active (timers s ! h))
   \<and> (isConnected s \<longrightarrow> heartbeatTimer s \<noteq> None)
   \<and> (\<not> isConnected s \<longrightarrow> heartbeatTimer s = None)"

definition serial_inv :: "runtime \<Rightarrow> bool" where
  "serial_inv s \<longleftrightarrow> one_socket s \<and> handles_ok s \<and> beat_ok s"




definition overlapping :: "event list" where
  "overlapping = [Call_connect WS_PATH, Call_connect WS_PATH, Socket_open 0]"

definition double_open :: "event list" where
  "double_open = [Call_connect WS_PATH, Call_connect WS_PATH, Socket_open 0, Socket_open 1]"

definition stale_close :: "event list" where
  "stale_close =
     [Call_connect WS_PATH, Socket_open 0, Call_close, Call_connect WS_PATH, Socket_open 1,
      Socket_close 0]"



section \<open>Chunked response reader\<close>

text \<open>
  Source: \<^verbatim>\<open>src/unnamed/part_001\<close> (the HTTP utilities), function \<^verbatim>\<open>postStream\<close>. A chunk is
  a \<^verbatim>\<open>Uint8Array\<close>. The response body is the sequence of chunks its reader yields,
  followed by \<^verbatim>\<open>done\<close> or by a rejected read. The trace records every
  \<^verbatim>\<open>reader.read()\<close> and every call of \<^verbatim>\<open>onChunk\<close> with the \<^verbatim>\<open>received\<close> field it
  reports.
\<close>

type_synonym chunk = "8 word list"

datatype reader_call = Read | OnChunk nat chunk

datatype http_error = HttpStatus nat | ReadRejected

text \<open>
  The \<^verbatim>\<open>while (true)\<close> loop of \<^verbatim>\<open>postStream\<close>, with the local variables \<^verbatim>\<open>chunks\<close> and
  \<^verbatim>\<open>totalBytes\<close>; \<open>rejects\<close> says whether the read after the last chunk is rejected
  rather than \<^verbatim>\<open>done\<close>.
\<close>

fun read_loop ::
  "chunk list \<Rightarrow> bool \<Rightarrow> chunk list \<Rightarrow> nat \<Rightarrow> reader_call list
     \<Rightarrow> (http_error + chunk list) \<times> reader_call list" where
  "read_loop [] rejects chunks totalBytes tr =
     (if rejects then (Inl ReadRejected, tr @ [Read]) else (Inr chunks, tr @ [Read]))"
| "read_loop (v # body) rejects chunks totalBytes tr =
     read_loop body rejects (chunks @ [v]) (totalBytes + length v)
       (tr @ [Read, OnChunk (totalBytes + length v) v])"

text \<open>
  \<^verbatim>\<open>postStream\<close> after the request has been answered with \<open>status\<close>: a status outside
  200..299 throws before any read; otherwise the loop runs and the chunks make the blob.
\<close>

definition postStream ::
  "nat \<Rightarrow> chunk list \<Rightarrow> bool \<Rightarrow> (http_error + chunk list) \<times> reader_call list" where
  "postStream status body rejects =
     (if 200 \<le> status \<and> status \<le> 299 then read_loop body rejects [] 0 []
      else (Inl (HttpStatus status), []))"

text \<open>The values of \<^verbatim>\<open>received\<close> in the calls of \<^verbatim>\<open>onChunk\<close>, and their chunks.\<close>

fun progress :: "reader_call list \<Rightarrow> (nat \<times> chunk) list" where
  "progress [] = []"
| "progress (Read # tr) = progress tr"
| "progress (OnChunk n v # tr) = (n, v) # progress tr"

text \<open>The running totals of the chunk lengths, starting after \<open>n\<close> bytes.\<close>

fun totals :: "nat \<Rightarrow> chunk list \<Rightarrow> nat list" where
  "totals n [] = []"
| "totals n (v # vs) = (n + length v) # totals (n + length v) vs"

text \<open>What the loop's trace is for a body: a read, then the callback, per chunk; then the last read.\<close>

fun alternating :: "nat \<Rightarrow> chunk list \<Rightarrow> reader_call list" where
  "alternating n [] = [Read]"
| "alternating n (v # vs) = Read # OnChunk (n + length v) v # alternating (n + length v) vs"


section \<open>Streaming media feeder\<close>

text \<open>
  Source: \<^verbatim>\<open>src/unnamed/part_001\<close>, function \<^verbatim>\<open>postStreamRealtime\<close>: its local variables,
  the closure \<^verbatim>\<open>flushPendingChunks\<close>, the \<^verbatim>\<open>sourceopen\<close> listener, the \<^verbatim>\<open>updateend\<close>
  listener and the asynchronous read loop.

  \<open>sourceBuffer\<close> is null (\<open>None\<close>) or the writer, of which only \<^verbatim>\<open>updating\<close> matters.
  \<open>media\<close> is \<^verbatim>\<open>mediaSource.readyState\<close>. \<open>opened\<close> says that \<^verbatim>\<open>sourceOpenPromise\<close> is
  resolved. \<open>position\<close> is where the read loop is suspended: before the response, in
  \<^verbatim>\<open>reader.read()\<close>, in \<^verbatim>\<open>await sourceOpenPromise\<close> holding a chunk, in the 50 ms pause,
  or after the loop. \<open>calls\<close> records, in order, the calls of \<^verbatim>\<open>onChunk\<close>,
  \<^verbatim>\<open>addSourceBuffer\<close>, \<^verbatim>\<open>appendBuffer\<close> and \<^verbatim>\<open>endOfStream\<close> that returned, the ones
  that threw into a \<^verbatim>\<open>catch\<close>, and the pauses.
\<close>

datatype ms_state = MS_closed | MS_open | MS_ended

datatype position = AwaitResponse | AtRead | AwaitOpen chunk bool | Paused | Finished

datatype feeder_call =
    Progress nat chunk
  | AddSourceBuffer string
  | AddSourceBufferFailed string
  | AppendBuffer chunk
  | AppendBufferFailed chunk
  | EndOfStream
  | Pause nat

datatype dom_exception = NotSupportedError | QuotaExceededError

record feeder =
  sourceBuffer :: "bool option"
  isSourceOpen :: bool
  pendingChunks :: "chunk list"
  totalBytes :: nat
  hasFirstChunk :: bool
  streamEnded :: bool
  detectedMimeType :: "string option"
  media :: ms_state
  opened :: bool
  position :: position
  calls :: "feeder_call list"

definition postStreamRealtime :: feeder where
  "postStreamRealtime = \<lparr>sourceBuffer = None, isSourceOpen = False, pendingChunks = [],
     totalBytes = 0, hasFirstChunk = False, streamEnded = False, detectedMimeType = None,
     media = MS_closed, opened = False, position = AwaitResponse, calls = []\<rparr>"

text \<open>JavaScript truthiness of an optional string: null and the empty string are falsy.\<close>

fun truthy :: "string option \<Rightarrow> bool" where
  "truthy None = False"
| "truthy (Some t) = (t \<noteq> [])"

text \<open>\<^verbatim>\<open>contentType.split(';')[0].trim()\<close>, for the ASCII white space.\<close>

definition white_space :: "char \<Rightarrow> bool" where
  "white_space c = (c \<in> set [CHR '' '', CHR 0x09, CHR 0x0A, CHR 0x0B, CHR 0x0C, CHR 0x0D])"

definition trim :: "string \<Rightarrow> string" where
  "trim t = rev (dropWhile white_space (rev (dropWhile white_space t)))"

definition mime_of :: "string \<Rightarrow> string" where
  "mime_of contentType = trim (takeWhile (\<lambda>c. c \<noteq> CHR '';'') contentType)"

text \<open>
  \<^verbatim>\<open>sourceBuffer.appendBuffer(chunk)\<close>: the platform decides whether the call is
  \<open>accepted\<close>; if so the writer is updating until its \<^verbatim>\<open>updateend\<close>, otherwise the
  call throws and changes nothing. A writer that is updating refuses the call.
\<close>

definition appendBuffer :: "bool \<Rightarrow> chunk \<Rightarrow> feeder \<Rightarrow> dom_exception + feeder" where
  "appendBuffer accepted chunk s =
     (if accepted \<and> sourceBuffer s = Some False
      then Inr (s\<lparr>sourceBuffer := Some True, calls := calls s @ [AppendBuffer chunk]\<rparr>)
      else Inl QuotaExceededError)"

text \<open>
  The \<^verbatim>\<open>while\<close> loop of \<^verbatim>\<open>flushPendingChunks\<close>: shift a chunk and append it while the
  queue is not empty and the writer is not updating; a throw is logged and breaks the loop.
\<close>

function flush_loop :: "bool \<Rightarrow> feeder \<Rightarrow> feeder" where
  "flush_loop accepted s =
     (case pendingChunks s of
        [] \<Rightarrow> s
      | chunk # rest \<Rightarrow>
          if sourceBuffer s \<noteq> Some False then s
          else (case appendBuffer accepted chunk (s\<lparr>pendingChunks := rest\<rparr>) of
                  Inl e \<Rightarrow> s\<lparr>pendingChunks := rest,
                             calls := calls s @ [AppendBufferFailed chunk]\<rparr>
                | Inr s' \<Rightarrow> flush_loop accepted s'))"
  by pat_completeness auto
termination
  by (relation "measure (\<lambda>(accepted, s). length (pendingChunks s))")
     (auto simp: appendBuffer_def split: if_splits)

declare flush_loop.simps [simp del]

text \<open>\<^verbatim>\<open>mediaSource.endOfStream()\<close> on an open container whose writer is idle.\<close>

definition endOfStream :: "feeder \<Rightarrow> feeder" where
  "endOfStream s = s\<lparr>media := MS_ended, calls := calls s @ [EndOfStream]\<rparr>"

definition flushPendingChunks :: "bool \<Rightarrow> feeder \<Rightarrow> feeder" where
  "flushPendingChunks accepted s =
     (if sourceBuffer s \<noteq> Some False then s
      else (let s1 = flush_loop accepted s
            in if streamEnded s1 \<and> pendingChunks s1 = [] \<and> sourceBuffer s1 \<noteq> Some True
                  \<and> media s1 = MS_open
               then endOfStream s1 else s1))"

text \<open>
  The body of the read loop after \<^verbatim>\<open>await sourceOpenPromise\<close>, for the chunk \<open>v\<close>: append
  it or queue it, then pause when more than 5 chunks are queued; without a writer the chunk
  is queued and the loop goes on to the next read.
\<close>

definition deliver :: "bool \<Rightarrow> chunk \<Rightarrow> feeder \<Rightarrow> feeder" where
  "deliver accepted v s =
     (if isSourceOpen s \<and> sourceBuffer s \<noteq> None
      then (let s1 =
                  (if sourceBuffer s \<noteq> Some True
                   then (case appendBuffer accepted v s of
                           Inl e \<Rightarrow> s\<lparr>pendingChunks := pendingChunks s @ [v],
                                      calls := calls s @ [AppendBufferFailed v]\<rparr>
                         | Inr s' \<Rightarrow> s')
                   else s\<lparr>pendingChunks := pendingChunks s @ [v]\<rparr>)
            in if length (pendingChunks s1) > 5
               then s1\<lparr>position := Paused, calls := calls s1 @ [Pause 50]\<rparr>
               else s1\<lparr>position := AtRead\<rparr>)
      else s\<lparr>pendingChunks := pendingChunks s @ [v], position := AtRead\<rparr>)"

text \<open>
  The body of the read loop for a chunk, up to \<^verbatim>\<open>await sourceOpenPromise\<close>: the running
  total, the progress callback and the first-chunk flag. When the promise is already
  resolved the loop goes on in the same turn; otherwise it waits holding the chunk.
\<close>

definition receive :: "bool \<Rightarrow> chunk \<Rightarrow> feeder \<Rightarrow> feeder" where
  "receive accepted v s =
     (let s1 = s\<lparr>totalBytes := totalBytes s + length v,
                 calls := calls s @ [Progress (totalBytes s + length v) v],
                 hasFirstChunk := True\<rparr>
      in if opened s1 then deliver accepted v s1
         else s1\<lparr>position := AwaitOpen v accepted\<rparr>)"

text \<open>
  The \<^verbatim>\<open>sourceopen\<close> listener. \<open>supported\<close> says for which types
  \<^verbatim>\<open>mediaSource.addSourceBuffer\<close> returns rather than throws; \<open>responseType\<close> is
  \<^verbatim>\<open>options.responseType\<close>. Every path ends in \<^verbatim>\<open>resolve()\<close>. The type to use is
  \<^verbatim>\<open>detectedMimeType || options.responseType || 'audio/mpeg'\<close>, where \<open>or_else\<close> is
  \<^verbatim>\<open>||\<close> with a string as its right operand.
\<close>

fun or_else :: "string option \<Rightarrow> string \<Rightarrow> string" where
  "or_else None d = d"
| "or_else (Some t) d = (if t = [] then d else t)"

definition choose_mime :: "string option \<Rightarrow> string option \<Rightarrow> string" where
  "choose_mime detected responseType = or_else detected (or_else responseType ''audio/mpeg'')"

definition addSourceBuffer :: "(string \<Rightarrow> bool) \<Rightarrow> string \<Rightarrow> feeder \<Rightarrow> dom_exception + feeder" where
  "addSourceBuffer supported mimeType s =
     (if supported mimeType
      then Inr (s\<lparr>sourceBuffer := Some False, calls := calls s @ [AddSourceBuffer mimeType]\<rparr>)
      else Inl NotSupportedError)"

definition sourceopen :: "(string \<Rightarrow> bool) \<Rightarrow> string option \<Rightarrow> feeder \<Rightarrow> feeder" where
  "sourceopen supported responseType s =
     (let s1 = s\<lparr>isSourceOpen := True, media := MS_open\<rparr>;
          mimeType = choose_mime (detectedMimeType s1) responseType
      in case addSourceBuffer supported mimeType s1 of
           Inr s2 \<Rightarrow> s2\<lparr>opened := True\<rparr>
         | Inl e \<Rightarrow>
             (let s2 = s1\<lparr>calls := calls s1 @ [AddSourceBufferFailed mimeType]\<rparr>
              in if truthy (detectedMimeType s2) \<and> detectedMimeType s2 \<noteq> Some ''audio/mpeg''
                 then (let s3 = s2\<lparr>detectedMimeType := Some ''audio/mpeg''\<rparr>
                       in case addSourceBuffer supported ''audio/mpeg'' s3 of
                            Inr s4 \<Rightarrow> s4\<lparr>opened := True\<rparr>
                          | Inl e' \<Rightarrow>
                              s3\<lparr>calls := calls s3 @ [AddSourceBufferFailed ''audio/mpeg''],
                                 opened := True\<rparr>)
                 else s2\<lparr>opened := True\<rparr>))"

text \<open>
  What can happen to a feeder. The container opens once. The response arrives with its
  \<^verbatim>\<open>Content-Type\<close> header, or the request fails. A read yields a chunk, \<^verbatim>\<open>done\<close> or a
  rejection. The writer reports \<^verbatim>\<open>updateend\<close> while it is updating: the flag is cleared and
  the listener runs. The pause ends. The flag of an event says whether the
  \<^verbatim>\<open>appendBuffer\<close> call made in its turn, if one is made, is accepted.
\<close>

datatype feed_event =
    SourceOpen
  | Response "string option"
  | ReadChunk chunk bool
  | ReadDone bool
  | ReadFail
  | UpdateEnd bool
  | PauseOver

fun feed :: "(string \<Rightarrow> bool) \<Rightarrow> string option \<Rightarrow> feeder \<Rightarrow> feed_event \<Rightarrow> feeder" where
  "feed supported responseType s SourceOpen =
     (if isSourceOpen s then s
      else (let s1 = sourceopen supported responseType s
            in case position s1 of
                 AwaitOpen v accepted \<Rightarrow> deliver accepted v s1
               | _ \<Rightarrow> s1))"
| "feed supported responseType s (Response contentType) =
     (if position s \<noteq> AwaitResponse then s
      else (case contentType of
              None \<Rightarrow> s\<lparr>position := AtRead\<rparr>
            | Some t \<Rightarrow>
                if t = [] then s\<lparr>position := AtRead\<rparr>
                else s\<lparr>detectedMimeType := Some (mime_of t), position := AtRead\<rparr>))"
| "feed supported responseType s (ReadChunk v accepted) =
     (if position s = AtRead then receive accepted v s else s)"
| "feed supported responseType s (ReadDone accepted) =
     (if position s = AtRead
      then (flushPendingChunks accepted (s\<lparr>streamEnded := True\<rparr>))\<lparr>position := Finished\<rparr>
      else s)"
| "feed supported responseType s ReadFail =
     (if position s = AtRead \<or> position s = AwaitResponse
      then s\<lparr>streamEnded := True, position := Finished\<rparr>
      else s)"
| "feed supported responseType s (UpdateEnd accepted) =
     (if sourceBuffer s = Some True
      then flushPendingChunks accepted (s\<lparr>sourceBuffer := Some False\<rparr>)
      else s)"
| "feed supported responseType s PauseOver =
     (if position s = Paused then s\<lparr>position := AtRead\<rparr> else s)"

fun feed_run ::
  "(string \<Rightarrow> bool) \<Rightarrow> string option \<Rightarrow> feeder \<Rightarrow> feed_event list \<Rightarrow> feeder" where
  "feed_run supported responseType s [] = s"
| "feed_run supported responseType s (e # es) =
     feed_run supported responseType (feed supported responseType s e) es"

text \<open>Observations: the chunks handed to the writer, in order; the finalizations; the pauses.\<close>

fun submissions :: "feeder_call list \<Rightarrow> chunk list" where
  "submissions [] = []"
| "submissions (AppendBuffer v # cs) = v # submissions cs"
| "submissions (c # cs) = submissions cs"

fun arrivals :: "feeder_call list \<Rightarrow> chunk list" where
  "arrivals [] = []"
| "arrivals (Progress n v # cs) = v # arrivals cs"
| "arrivals (c # cs) = arrivals cs"

fun reported :: "feeder_call list \<Rightarrow> nat list" where
  "reported [] = []"
| "reported (Progress n v # cs) = n # reported cs"
| "reported (c # cs) = reported cs"

fun attempts :: "feeder_call list \<Rightarrow> string list" where
  "attempts [] = []"
| "attempts (AddSourceBuffer t # cs) = t # attempts cs"
| "attempts (AddSourceBufferFailed t # cs) = t # attempts cs"
| "attempts (c # cs) = attempts cs"

definition finalized :: "feeder \<Rightarrow> bool" where
  "finalized s = (EndOfStream \<in> set (calls s))"

definition mp3_only :: "string \<Rightarrow> bool" where
  "mp3_only t = (t = ''audio/mpeg'')"

definition nothing_supported :: "string \<Rightarrow> bool" where
  "nothing_supported t = False"

text \<open>
  The progress the read loop has reported agrees with its counter: the values reported are
  the running totals of the chunks that arrived, and \<^verbatim>\<open>totalBytes\<close> is their sum.
\<close>

definition summed :: "feeder \<Rightarrow> bool" where
  "summed s \<longleftrightarrow> reported (calls s) = totals 0 (arrivals (calls s))
     \<and> totalBytes s = sum_list (map length (arrivals (calls s)))"

text \<open>
  The chunk the read loop holds while it waits for the container to open, and the answer
  the writer will give when that chunk is appended.
\<close>

fun held :: "position \<Rightarrow> chunk list" where
  "held (AwaitOpen v accepted) = [v]"
| "held p = []"

fun held_accepted :: "position \<Rightarrow> bool" where
  "held_accepted (AwaitOpen v accepted) = accepted"
| "held_accepted p = True"

text \<open>The events in whose turn no \<^verbatim>\<open>appendBuffer\<close> call throws.\<close>

fun accepting :: "feed_event \<Rightarrow> bool" where
  "accepting (ReadChunk v accepted) = accepted"
| "accepting (ReadDone accepted) = accepted"
| "accepting (UpdateEnd accepted) = accepted"
| "accepting e = True"

text \<open>
  As long as no \<^verbatim>\<open>appendBuffer\<close> call throws: the chunks that arrived are the ones
  handed to the writer, then the queue, then the chunk held by the loop; the queue is empty
  whenever the writer is idle; and nothing is queued or appended before the container opens.
\<close>

definition in_order :: "feeder \<Rightarrow> bool" where
  "in_order s \<longleftrightarrow>
     arrivals (calls s) = submissions (calls s) @ pendingChunks s @ held (position s)
   \<and> (sourceBuffer s = Some False \<longrightarrow> pendingChunks s = [])
   \<and> (\<not> opened s \<longrightarrow> sourceBuffer s = None \<and> pendingChunks s = [] \<and> \<not> isSourceOpen s)
   \<and> (opened s \<longrightarrow> held (position s) = [] \<and> isSourceOpen s)
   \<and> held_accepted (position s)"

text \<open>
  Once the source has ended the read loop is over; a writer exists only after the container
  has opened; and once \<^verbatim>\<open>endOfStream\<close> has been called the source has ended, the queue
  is empty and the writer is idle.
\<close>

definition drained :: "feeder \<Rightarrow> bool" where
  "drained s \<longleftrightarrow>
     (streamEnded s \<longrightarrow> position s = Finished)
   \<and> (sourceBuffer s \<noteq> None \<longrightarrow> isSourceOpen s)
   \<and> (finalized s \<longrightarrow>
        streamEnded s \<and> pendingChunks s = [] \<and> sourceBuffer s = Some False \<and> media s = MS_ended)"

text \<open>Runs and states used in the concrete evaluations.\<close>

definition two_chunks :: "feed_event list" where
  "two_chunks =
     [SourceOpen, Response (Some ''audio/mpeg''), ReadChunk [1, 2] False, ReadChunk [3] True,
      UpdateEnd True]"

definition failed_read :: "feed_event list" where
  "failed_read =
     [SourceOpen, Response (Some ''audio/mpeg''), ReadChunk [1, 2] True, UpdateEnd True, ReadFail]"

definition failed_read_busy :: "feed_event list" where
  "failed_read_busy =
     [SourceOpen, Response (Some ''audio/mpeg''), ReadChunk [1, 2] True, ReadFail, UpdateEnd True]"

definition no_writer_backlog :: "feed_event list" where
  "no_writer_backlog =
     [SourceOpen, Response (Some ''audio/ogg''), ReadChunk [1] True, ReadChunk [2] True,
      ReadChunk [3] True, ReadChunk [4] True, ReadChunk [5] True, ReadChunk [6] True,
      ReadChunk [7] True]"

definition busy_writer_backlog :: "feed_event list" where
  "busy_writer_backlog =
     [SourceOpen, Response (Some ''audio/mpeg''), ReadChunk [0] True, ReadChunk [1] True,
      ReadChunk [2] True, ReadChunk [3] True, ReadChunk [4] True, ReadChunk [5] True]"

fun is_read_chunk :: "feed_event \<Rightarrow> bool" where
  "is_read_chunk (ReadChunk v accepted) = True"
| "is_read_chunk e = False"

definition unsupported_mp3 :: feeder where
  "unsupported_mp3 = postStreamRealtime\<lparr>detectedMimeType := Some ''audio/mpeg''\<rparr>"

definition detected_ogg :: feeder where
  "detected_ogg = postStreamRealtime\<lparr>detectedMimeType := Some ''audio/ogg''\<rparr>"



section \<open>Playback readiness\<close>

text \<open>
  Source: \<^verbatim>\<open>src/unnamed/part_001\<close>, the promise \<^verbatim>\<open>postStreamRealtime\<close> returns: the 5 ms
  interval \<^verbatim>\<open>checkFirstChunk\<close>, the closure \<^verbatim>\<open>tryStartPlayback\<close> run at once and then
  every 100 ms, the 10000 ms timeout and the audio element's error listener. The callbacks
  read the feeder's variables \<^verbatim>\<open>hasFirstChunk\<close> and \<^verbatim>\<open>sourceBuffer\<close>, so the state holds
  the feeder next to the promise's own variables. The catch on \<^verbatim>\<open>streamPromise\<close> never
  runs, since the read loop catches every error itself.

  JavaScript numbers are IEEE 754 doubles. The sum over \<^verbatim>\<open>audio.buffered\<close> is computed
  in that arithmetic, which is a parameter here: a type of doubles with \<^verbatim>\<open>0\<close>, \<^verbatim>\<open>+\<close>,
  \<^verbatim>\<open>-\<close> and the test \<^verbatim>\<open>> 1\<close>. Readings of \<^verbatim>\<open>Date.now()\<close> are whole milliseconds,
  counted from the call of \<^verbatim>\<open>postStreamRealtime\<close>.
\<close>

record 'd double_ops =
  d_zero :: 'd
  d_add :: "'d \<Rightarrow> 'd \<Rightarrow> 'd"
  d_sub :: "'d \<Rightarrow> 'd \<Rightarrow> 'd"
  d_above_one :: "'d \<Rightarrow> bool"

datatype settled = Unsettled | Ready | StreamTimeout | AudioFailed

text \<open>
  A timer that is set is represented by the time at which it is next due; \<open>None\<close> is a
  timer that is not set, was cleared, or (the timeout) has fired.
\<close>

record playback =
  stream :: feeder
  clock :: nat
  checkFirstChunk :: "nat option"
  bufferCheckInterval :: "nat option"
  streamTimeout :: "nat option"
  startTime :: nat
  outcome :: settled

text \<open>
  The state when \<^verbatim>\<open>postStreamRealtime\<close> returns its promise: the feeder has started, the
  executor has set the 5 ms interval and the 10000 ms timeout.
\<close>

definition playback_start :: playback where
  "playback_start = \<lparr>stream = postStreamRealtime, clock = 0, checkFirstChunk = Some 5,
     bufferCheckInterval = None, streamTimeout = Some 10000, startTime = 0,
     outcome = Unsettled\<rparr>"

text \<open>\<^verbatim>\<open>resolve\<close> and \<^verbatim>\<open>reject\<close>: the first call settles the promise, later ones do nothing.\<close>

definition settle :: "settled \<Rightarrow> playback \<Rightarrow> playback" where
  "settle r p = (if outcome p = Unsettled then p\<lparr>outcome := r\<rparr> else p)"

text \<open>
  The \<^verbatim>\<open>for\<close> loop over \<^verbatim>\<open>audio.buffered\<close>, a list of ranges \<open>(start, end)\<close> in seconds:
  \<^verbatim>\<open>totalBuffered += buffered.end(i) - buffered.start(i)\<close>, from left to right.
\<close>

fun totalBuffered :: "'d double_ops \<Rightarrow> 'd \<Rightarrow> ('d \<times> 'd) list \<Rightarrow> 'd" where
  "totalBuffered ops acc [] = acc"
| "totalBuffered ops acc ((a, b) # ranges) =
     totalBuffered ops (d_add ops acc (d_sub ops b a)) ranges"

text \<open>
  \<^verbatim>\<open>tryStartPlayback\<close>, run when \<^verbatim>\<open>audio.buffered\<close> holds the ranges \<open>buffered\<close>: it
  returns at once while the feeder has no writer.
\<close>

definition tryStartPlayback :: "'d double_ops \<Rightarrow> ('d \<times> 'd) list \<Rightarrow> playback \<Rightarrow> playback" where
  "tryStartPlayback ops buffered p =
     (if sourceBuffer (stream p) = None then p
      else (let elapsedTime = int (clock p) - int (startTime p);
                hasEnoughBuffer =
                  (d_above_one ops (totalBuffered ops (d_zero ops) buffered) \<or> elapsedTime > 1000)
            in if hasEnoughBuffer then settle Ready (p\<lparr>bufferCheckInterval := None\<rparr>) else p))"

text \<open>
  What can happen: an event of the feeder; time passes; a timer that is due runs its
  callback (a timer may run late, never early), the two polls seeing the ranges
  \<^verbatim>\<open>audio.buffered\<close> holds then; the audio element reports an error. An interval that
  stays set is due again one period after its callback ran.
\<close>

datatype 'd play_event =
    Stream feed_event
  | Elapse nat
  | FirstChunkPoll "('d \<times> 'd) list"
  | BufferPoll "('d \<times> 'd) list"
  | Deadline
  | AudioError

fun play ::
  "'d double_ops \<Rightarrow> (string \<Rightarrow> bool) \<Rightarrow> string option \<Rightarrow> playback \<Rightarrow> 'd play_event \<Rightarrow> playback" where
  "play ops supported responseType p (Stream e) =
     p\<lparr>stream := feed supported responseType (stream p) e\<rparr>"
| "play ops supported responseType p (Elapse ms) = p\<lparr>clock := clock p + ms\<rparr>"
| "play ops supported responseType p (FirstChunkPoll buffered) =
     (case checkFirstChunk p of
        None \<Rightarrow> p
      | Some due \<Rightarrow>
          if clock p < due then p
          else if hasFirstChunk (stream p)
               then tryStartPlayback ops buffered
                      (p\<lparr>checkFirstChunk := None, startTime := clock p,
                         bufferCheckInterval := Some (clock p + 100)\<rparr>)
               else p\<lparr>checkFirstChunk := Some (clock p + 5)\<rparr>)"
| "play ops supported responseType p (BufferPoll buffered) =
     (case bufferCheckInterval p of
        None \<Rightarrow> p
      | Some due \<Rightarrow>
          if clock p < due then p
          else tryStartPlayback ops buffered (p\<lparr>bufferCheckInterval := Some (clock p + 100)\<rparr>))"
| "play ops supported responseType p Deadline =
     (case streamTimeout p of
        None \<Rightarrow> p
      | Some due \<Rightarrow>
          if clock p < due then p
          else (let p1 = p\<lparr>streamTimeout := None, checkFirstChunk := None\<rparr>
                in if \<not> hasFirstChunk (stream p1) then settle StreamTimeout p1 else p1))"
| "play ops supported responseType p AudioError =
     settle AudioFailed (p\<lparr>checkFirstChunk := None\<rparr>)"

fun play_run ::
  "'d double_ops \<Rightarrow> (string \<Rightarrow> bool) \<Rightarrow> string option \<Rightarrow> playback \<Rightarrow> 'd play_event list
     \<Rightarrow> playback" where
  "play_run ops supported responseType p [] = p"
| "play_run ops supported responseType p (e # es) =
     play_run ops supported responseType (play ops supported responseType p e) es"

text \<open>
  A run in which every timer runs on time: the container opens, the response and the first
  chunk arrive, the 5 ms poll sees the chunk, the 100 ms check runs at 105 ms and at
  1105 ms, and the timeout runs at 10000 ms.
\<close>

definition stalled :: "'d play_event list" where
  "stalled =
     [Stream SourceOpen, Stream (Response (Some ''audio/mpeg'')), Stream (ReadChunk [1, 2] True),
      Elapse 5, FirstChunkPoll [], Elapse 100, BufferPoll [], Elapse 1000, BufferPoll [],
      Elapse 8895, Deadline]"

text \<open>
  The feeder has a chunk and the container has opened without a writer, and the promise is
  neither resolved nor rejected as timed out.
\<close>

definition stranded :: "playback \<Rightarrow> bool" where
  "stranded p \<longleftrightarrow> isSourceOpen (stream p) \<and> sourceBuffer (stream p) = None
     \<and> hasFirstChunk (stream p) \<and> outcome p \<noteq> Ready \<and> outcome p \<noteq> StreamTimeout"

text \<open>No poll has seen a chunk yet: the 100 ms check is not set and the promise is not resolved.\<close>

definition unseen :: "playback \<Rightarrow> bool" where
  "unseen p \<longleftrightarrow> hasFirstChunk (stream p) \<or> (bufferCheckInterval p = None \<and> outcome p \<noteq> Ready)"


section \<open>Dispatcher lemmas\<close>

lemma indexOf_from_bounds:
  "indexOf_from xs x k = - 1 \<or> int k \<le> indexOf_from xs x k"
  by (induction xs arbitrary: k) (auto, force)

lemma indexOf_from_notin: "x \<notin> set xs \<Longrightarrow> indexOf_from xs x k = - 1"
  by (induction xs arbitrary: k) auto

lemma indexOf_from_in: "x \<in> set xs \<Longrightarrow> int k \<le> indexOf_from xs x k"
proof (induction xs arbitrary: k)
  case Nil
  then show ?case by simp
next
  case (Cons y ys)
  show ?case
  proof (cases "y = x")
    case True
    then show ?thesis by simp
  next
    case False
    with Cons.prems have "x \<in> set ys" by simp
    from Cons.IH [OF this, of "Suc k"] False show ?thesis by simp
  qed
qed

lemma indexOf_found: "(indexOf xs x > - 1) = (x \<in> set xs)"
proof (cases "x \<in> set xs")
  case True
  from indexOf_from_in [OF this, of 0] True show ?thesis
    by (simp add: indexOf_def)
next
  case False
  from indexOf_from_notin [OF this, of 0] False show ?thesis
    by (simp add: indexOf_def)
qed

lemma splice1_indexOf_from:
  "x \<in> set xs \<Longrightarrow> splice1 xs (nat (indexOf_from xs x k) - k) = remove1 x xs"
proof (induction xs arbitrary: k)
  case Nil
  then show ?case by simp
next
  case (Cons y ys)
  show ?case
  proof (cases "y = x")
    case True
    then show ?thesis by (simp add: splice1_def)
  next
    case False
    with Cons.prems have in_ys: "x \<in> set ys" by simp
    have ge: "int (Suc k) \<le> indexOf_from ys x (Suc k)"
      by (rule indexOf_from_in [OF in_ys])
    then have "nat (indexOf_from ys x (Suc k)) - k = Suc (nat (indexOf_from ys x (Suc k)) - Suc k)"
      by linarith
    with Cons.IH [OF in_ys, of "Suc k"] False show ?thesis
      by (simp add: splice1_def)
  qed
qed

lemma splice1_indexOf: "x \<in> set xs \<Longrightarrow> splice1 xs (nat (indexOf xs x)) = remove1 x xs"
  using splice1_indexOf_from [of x xs 0] by (simp add: indexOf_def)

lemma on_event: "on event callback cbs = cbs(event \<mapsto> subscribers cbs event @ [callback])"
  by (auto simp: on_def subscribers_def Let_def split: option.splits)

lemma off_known:
  "cbs event = Some cs \<Longrightarrow>
   off event callback cbs =
     (if callback \<in> set cs then cbs(event \<mapsto> remove1 callback cs) else cbs)"
  by (simp add: off_def Let_def indexOf_found splice1_indexOf)

lemma off_unknown: "cbs event = None \<Longrightarrow> off event callback cbs = cbs"
  by (simp add: off_def)

lemma off_absent: "callback \<notin> set (subscribers cbs event) \<Longrightarrow> off event callback cbs = cbs"
  by (cases "cbs event") (simp_all add: off_unknown off_known subscribers_def)

lemma subscribers_off:
  "subscribers (off event callback cbs) event = remove1 callback (subscribers cbs event)"
  by (cases "cbs event") (simp_all add: off_unknown off_known subscribers_def remove1_idem)

lemma subscribers_off_other:
  "other \<noteq> event \<Longrightarrow> subscribers (off event callback cbs) other = subscribers cbs other"
  by (cases "cbs event") (simp_all add: off_unknown off_known subscribers_def)

lemma subscribers_on:
  "subscribers (on event callback cbs) event = subscribers cbs event @ [callback]"
  by (simp add: on_event subscribers_def)

lemma subscribers_on_other:
  "other \<noteq> event \<Longrightarrow> subscribers (on event callback cbs) other = subscribers cbs other"
  by (simp add: on_event subscribers_def)

lemma remove1_append_absent: "x \<notin> set xs \<Longrightarrow> remove1 x (xs @ [x]) = xs"
  by (induction xs) auto


lemma snoc_eq_cons: "(xs @ [c] = c # xs) = (set xs \<subseteq> {c})"
  by (induction xs) auto

lemma roundtrip_restores:
  "(remove1 c (xs @ [c]) = xs) = (set (dropWhile (\<lambda>x. x \<noteq> c) xs) \<subseteq> {c})"
  by (induction xs) (simp_all add: snoc_eq_cons)

text \<open>
  Claim C10 (as amended). For every event tag, \<open>on\<close> appends the callback to the tag's
  list and leaves the other tags alone; \<open>off\<close> removes only the first matching
  registration; a callback subscribed twice is still invoked by \<open>emit\<close> after one
  \<open>off\<close>, with exactly one registration fewer; \<open>off\<close> with a callback that is not in
  the list (in particular with an unknown tag) leaves the registry unchanged. \<open>on\<close>
  followed by \<open>off\<close> of the same callback leaves the tag's list with its first
  occurrence of the callback removed and the callback added at the end; that is the
  original list exactly when every registration from the first occurrence of the callback
  on is that same callback, in particular whenever the callback was not registered before.
\<close>

theorem dispatcher_on_off:
  "subscribers (on event callback cbs) event = subscribers cbs event @ [callback]
   \<and> (other \<noteq> event \<longrightarrow> subscribers (on event callback cbs) other = subscribers cbs other)
   \<and> subscribers (off event callback cbs) event = remove1 callback (subscribers cbs event)
   \<and> (other \<noteq> event \<longrightarrow> subscribers (off event callback cbs) other = subscribers cbs other)
   \<and> count_list (invoked (off event callback (on event callback (on event callback cbs))) event)
         callback = Suc (count_list (subscribers cbs event) callback)
   \<and> (callback \<notin> set (subscribers cbs event) \<longrightarrow> off event callback cbs = cbs)
   \<and> subscribers (off event callback (on event callback cbs)) event
       = remove1 callback (subscribers cbs event @ [callback])
   \<and> (subscribers (off event callback (on event callback cbs)) event = subscribers cbs event)
       = (set (dropWhile (\<lambda>c. c \<noteq> callback) (subscribers cbs event)) \<subseteq> {callback})
   \<and> (callback \<notin> set (subscribers cbs event) \<longrightarrow>
        subscribers (off event callback (on event callback cbs)) event = subscribers cbs event)"
proof -
  have twice: "count_list (invoked (off event callback (on event callback (on event callback cbs))) event)
         callback = Suc (count_list (subscribers cbs event) callback)"
  proof -
    have "invoked (off event callback (on event callback (on event callback cbs))) event
          = subscribers (off event callback (on event callback (on event callback cbs))) event"
      by (simp add: invoked_def subscribers_def)
    also have "\<dots> = remove1 callback (subscribers cbs event @ [callback, callback])"
      by (simp add: subscribers_off subscribers_on)
    finally have "invoked (off event callback (on event callback (on event callback cbs))) event
          = remove1 callback (subscribers cbs event @ [callback, callback])" .
    moreover have "count_list (remove1 callback (xs @ [callback, callback])) callback
          = Suc (count_list xs callback)" for xs
      by (induction xs) auto
    ultimately show ?thesis by simp
  qed
  have trip: "subscribers (off event callback (on event callback cbs)) event
       = remove1 callback (subscribers cbs event @ [callback])"
    by (simp add: subscribers_off subscribers_on)
  have exact: "(subscribers (off event callback (on event callback cbs)) event = subscribers cbs event)
       = (set (dropWhile (\<lambda>c. c \<noteq> callback) (subscribers cbs event)) \<subseteq> {callback})"
    unfolding trip by (rule roundtrip_restores)
  have rest: "subscribers (on event callback cbs) event = subscribers cbs event @ [callback]
   \<and> (other \<noteq> event \<longrightarrow> subscribers (on event callback cbs) other = subscribers cbs other)
   \<and> subscribers (off event callback cbs) event = remove1 callback (subscribers cbs event)
   \<and> (other \<noteq> event \<longrightarrow> subscribers (off event callback cbs) other = subscribers cbs other)"
    by (simp add: subscribers_on subscribers_on_other subscribers_off subscribers_off_other)
  have absent: "callback \<notin> set (subscribers cbs event) \<longrightarrow> off event callback cbs = cbs"
    by (simp add: off_absent)
  have fresh: "callback \<notin> set (subscribers cbs event) \<longrightarrow>
        subscribers (off event callback (on event callback cbs)) event = subscribers cbs event"
    unfolding trip by (simp add: remove1_append_absent)
  from rest twice absent trip exact fresh show ?thesis by (intro conjI) (elim conjE, assumption)+
qed

theorem dispatcher_on_off_witness:
  "subscribers (on ''message'' 3 registry_ab) ''message'' = [1, 2, 3]
   \<and> subscribers (on ''message'' 3 registry_ab) ''close'' = []
   \<and> subscribers (off ''message'' 1 registry_ab) ''message'' = [2]
   \<and> count_list (invoked (off ''message'' 3 (on ''message'' 3 (on ''message'' 3 registry_ab)))
         ''message'') 3 = 1
   \<and> (3::nat) \<notin> set (subscribers registry_ab ''close'')
   \<and> off ''close'' 3 registry_ab = registry_ab
   \<and> (3::nat) \<notin> set (subscribers registry_ab ''message'')
   \<and> subscribers (off ''message'' 3 (on ''message'' 3 registry_ab)) ''message'' = [1, 2]
   \<and> subscribers (off ''message'' 2 (on ''message'' 2 registry_ab)) ''message'' = [1, 2]
   \<and> subscribers (off ''message'' 1 (on ''message'' 1 registry_ab)) ''message'' = [2, 1]"
proof -
  have sub: "subscribers registry_ab ''message'' = [1, 2]"
    by (simp add: registry_ab_def subscribers_def)
  have sub_close: "subscribers registry_ab ''close'' = []"
    by (simp add: registry_ab_def subscribers_def)
  note at_message = dispatcher_on_off [of "''message''" 3 registry_ab "''close''"]
  note at_close = dispatcher_on_off [of "''close''" 3 registry_ab "''message''"]
  note at_first = dispatcher_on_off [of "''message''" 1 registry_ab "''close''"]
  note at_second = dispatcher_on_off [of "''message''" 2 registry_ab "''close''"]
  show ?thesis
    using at_message at_close at_first at_second by (simp add: sub sub_close)
qed

text \<open>
  The claim as stated fails: with the callback already registered ahead of another one,
  \<open>on\<close> then \<open>off\<close> removes the earlier registration and keeps the new one at the end.
\<close>

theorem dispatcher_roundtrip_counterexample:
  "subscribers (off ''message'' 1 (on ''message'' 1 registry_ab)) ''message'' = [2, 1]
   \<and> subscribers registry_ab ''message'' = [1, 2]
   \<and> subscribers (off ''message'' 1 (on ''message'' 1 registry_ab)) ''message''
       \<noteq> subscribers registry_ab ''message''"
  by (simp add: subscribers_def off_def on_def registry_ab_def indexOf_def splice1_def Let_def)



section \<open>WebSocket manager: lemmas\<close>

subsection \<open>The serial invariant\<close>

lemma inv_constructor: "serial_inv constructor"
  by (simp add: serial_inv_def one_socket_def handles_ok_def beat_ok_def constructor_def isConnected_def)

lemma isConnected_cong:
  "ws s' = ws s \<Longrightarrow> sockets s' = sockets s \<Longrightarrow> isConnected s' = isConnected s"
  by (auto simp: isConnected_def split: option.splits)

lemma one_socket_cong:
  "ws s' = ws s \<Longrightarrow> sockets s' = sockets s \<Longrightarrow> one_socket s' = one_socket s"
  by (simp add: one_socket_def)

lemma handles_ok_cong:
  "timers s' = timers s \<Longrightarrow> heartbeatTimer s' = heartbeatTimer s \<Longrightarrow>
   reconnectTimer s' = reconnectTimer s \<Longrightarrow> handles_ok s' = handles_ok s"
  by (simp add: handles_ok_def)

lemma beat_ok_cong:
  "isConnected s' = isConnected s \<Longrightarrow> timers s' = timers s \<Longrightarrow>
   heartbeatTimer s' = heartbeatTimer s \<Longrightarrow> beat_ok s' = beat_ok s"
  by (simp add: beat_ok_def)

lemma serial_inv_cong:
  assumes "ws s' = ws s" "sockets s' = sockets s" "timers s' = timers s"
    "heartbeatTimer s' = heartbeatTimer s" "reconnectTimer s' = reconnectTimer s"
  shows "serial_inv s' = serial_inv s"
  using assms isConnected_cong [of s' s] one_socket_cong [of s' s] handles_ok_cong [of s' s]
    beat_ok_cong [of s' s]
  by (simp add: serial_inv_def)

lemma one_socketD1: "one_socket s \<Longrightarrow> Suc i < length (sockets s) \<Longrightarrow> sockets s ! i = CLOSED"
  unfolding one_socket_def by blast

lemma one_socketD2: "one_socket s \<Longrightarrow> ws s = Some i \<Longrightarrow> Suc i = length (sockets s)"
  unfolding one_socket_def by blast

lemma one_socketD3:
  "one_socket s \<Longrightarrow> ws s = None \<Longrightarrow> i < length (sockets s) \<Longrightarrow>
   sockets s ! i = CLOSING \<or> sockets s ! i = CLOSED"
  unfolding one_socket_def by blast

lemma one_socketI:
  "(\<And>i. Suc i < length (sockets s) \<Longrightarrow> sockets s ! i = CLOSED) \<Longrightarrow>
   (\<And>i. ws s = Some i \<Longrightarrow> Suc i = length (sockets s)) \<Longrightarrow>
   (\<And>i. ws s = None \<Longrightarrow> i < length (sockets s) \<Longrightarrow>
      sockets s ! i = CLOSING \<or> sockets s ! i = CLOSED) \<Longrightarrow> one_socket s"
  unfolding one_socket_def by blast

lemma handles_okD1:
  "handles_ok s \<Longrightarrow> heartbeatTimer s = Some h \<Longrightarrow>
   h < length (timers s) \<and> task (timers s ! h) = HeartbeatTask"
  unfolding handles_ok_def by blast

lemma handles_okD2:
  "handles_ok s \<Longrightarrow> reconnectTimer s = Some h \<Longrightarrow>
   h < length (timers s) \<and> task (timers s ! h) = ReconnectTask"
  unfolding handles_ok_def by blast

lemma handles_okI:
  "(\<And>h. heartbeatTimer s = Some h \<Longrightarrow> h < length (timers s) \<and> task (timers s ! h) = HeartbeatTask) \<Longrightarrow>
   (\<And>h. reconnectTimer s = Some h \<Longrightarrow> h < length (timers s) \<and> task (timers s ! h) = ReconnectTask) \<Longrightarrow>
   handles_ok s"
  unfolding handles_ok_def by blast

lemma beat_okD1:
  "beat_ok s \<Longrightarrow> h < length (timers s) \<Longrightarrow> task (timers s ! h) = HeartbeatTask \<Longrightarrow>
   active (timers s ! h) \<Longrightarrow> isConnected s \<and> heartbeatTimer s = Some h"
  unfolding beat_ok_def by blast

lemma beat_okD2:
  "beat_ok s \<Longrightarrow> isConnected s \<Longrightarrow> heartbeatTimer s = Some h \<Longrightarrow> active (timers s ! h)"
  unfolding beat_ok_def by blast

lemma beat_okD3: "beat_ok s \<Longrightarrow> isConnected s \<Longrightarrow> \<exists>h. heartbeatTimer s = Some h"
  unfolding beat_ok_def by blast

lemma beat_okD4: "beat_ok s \<Longrightarrow> \<not> isConnected s \<Longrightarrow> heartbeatTimer s = None"
  unfolding beat_ok_def by blast

lemma beat_okI:
  "(\<And>h. h < length (timers s) \<Longrightarrow> task (timers s ! h) = HeartbeatTask \<Longrightarrow>
      active (timers s ! h) \<Longrightarrow> isConnected s \<and> heartbeatTimer s = Some h) \<Longrightarrow>
   (\<And>h. isConnected s \<Longrightarrow> heartbeatTimer s = Some h \<Longrightarrow> active (timers s ! h)) \<Longrightarrow>
   (isConnected s \<Longrightarrow> \<exists>h. heartbeatTimer s = Some h) \<Longrightarrow>
   (\<not> isConnected s \<Longrightarrow> heartbeatTimer s = None) \<Longrightarrow> beat_ok s"
  unfolding beat_ok_def by blast

lemma connect_open:
  "isConnected s \<Longrightarrow> fst (connect url_ok p s) = s\<lparr>trace := trace s @ [Warned]\<rparr>"
  by (simp add: connect_def)

lemma connect_refused:
  "\<not> isConnected s \<Longrightarrow> \<not> url_ok (WS_BASE_URL @ p) \<Longrightarrow>
   fst (connect url_ok p s) = s\<lparr>url := WS_BASE_URL @ p, isManualClose := False\<rparr>"
  by (simp add: connect_def Let_def)

lemma connect_new:
  "\<not> isConnected s \<Longrightarrow> url_ok (WS_BASE_URL @ p) \<Longrightarrow>
   fst (connect url_ok p s) =
     s\<lparr>url := WS_BASE_URL @ p, isManualClose := False,
       sockets := sockets s @ [CONNECTING], ws := Some (length (sockets s))\<rparr>"
  by (simp add: connect_def Let_def)

lemma inv_connect:
  assumes inv: "serial_inv s" and adm: "isConnected s \<or> all_closed s"
  shows "serial_inv (fst (connect url_ok p s))"
proof (cases "isConnected s")
  case True
  then show ?thesis
    using inv serial_inv_cong [of "fst (connect url_ok p s)" s] by (simp add: connect_open)
next
  case False
  with adm have closed: "all_closed s" by simp
  show ?thesis
  proof (cases "url_ok (WS_BASE_URL @ p)")
    case False
    with \<open>\<not> isConnected s\<close> show ?thesis
      using inv serial_inv_cong [of "fst (connect url_ok p s)" s] by (simp add: connect_refused)
  next
    case True
    let ?s' = "fst (connect url_ok p s)"
    have f: "sockets ?s' = sockets s @ [CONNECTING]" "ws ?s' = Some (length (sockets s))"
      "timers ?s' = timers s" "heartbeatTimer ?s' = heartbeatTimer s"
      "reconnectTimer ?s' = reconnectTimer s"
      using True \<open>\<not> isConnected s\<close> by (simp_all add: connect_new)
    have nc: "\<not> isConnected ?s'"
      by (simp add: isConnected_def f)
    have one: "one_socket ?s'"
      using closed by (intro one_socketI) (auto simp: f nth_append all_closed_def list_all_length)
    have han: "handles_ok ?s' = handles_ok s"
      by (rule handles_ok_cong) (simp_all add: f)
    from inv have b: "beat_ok s" by (simp add: serial_inv_def)
    have beat: "beat_ok ?s'"
    proof (rule beat_okI)
      fix h assume "h < length (timers ?s')" "task (timers ?s' ! h) = HeartbeatTask"
        "active (timers ?s' ! h)"
      with beat_okD1 [OF b, of h] \<open>\<not> isConnected s\<close>
      show "isConnected ?s' \<and> heartbeatTimer ?s' = Some h" by (simp add: f)
    next
      fix h assume "isConnected ?s'" with nc show "active (timers ?s' ! h)" by simp
    next
      assume "isConnected ?s'" with nc show "\<exists>h. heartbeatTimer ?s' = Some h" by simp
    next
      from beat_okD4 [OF b \<open>\<not> isConnected s\<close>] show "heartbeatTimer ?s' = None" by (simp add: f)
    qed
    from one han beat inv show ?thesis by (simp add: serial_inv_def)
  qed
qed

lemma inv_call_connect: "serial_inv s \<Longrightarrow> admissible s (Call_connect p) \<Longrightarrow> serial_inv (step url_ok s (Call_connect p))"
  by (simp add: inv_connect)

lemma inv_disarm:
  assumes inv: "serial_inv s" and h: "h < length (timers s)" "task (timers s ! h) = ReconnectTask"
  shows "serial_inv (s\<lparr>timers := (timers s)[h := (timers s ! h)\<lparr>active := False\<rparr>]\<rparr>)"
proof -
  let ?s' = "s\<lparr>timers := (timers s)[h := (timers s ! h)\<lparr>active := False\<rparr>]\<rparr>"
  have con: "isConnected ?s' = isConnected s"
    by (rule isConnected_cong) simp_all
  have len: "length (timers ?s') = length (timers s)" by simp
  have hb: "heartbeatTimer ?s' = heartbeatTimer s" "reconnectTimer ?s' = reconnectTimer s" by simp_all
  have tk: "task (timers ?s' ! k) = task (timers s ! k)" if "k < length (timers s)" for k
    using that h by (cases "k = h") simp_all
  have ac: "active (timers ?s' ! k) = (active (timers s ! k) \<and> k \<noteq> h)" if "k < length (timers s)" for k
    using that h by (cases "k = h") simp_all
  from inv have o: "one_socket s" and ha: "handles_ok s" and b: "beat_ok s"
    by (simp_all add: serial_inv_def)
  have one: "one_socket ?s'"
    using o one_socket_cong [of ?s' s] by simp
  have han: "handles_ok ?s'"
  proof (rule handles_okI)
    fix k assume "heartbeatTimer ?s' = Some k"
    with handles_okD1 [OF ha, of k] show "k < length (timers ?s') \<and> task (timers ?s' ! k) = HeartbeatTask"
      using tk [of k] by simp
  next
    fix k assume "reconnectTimer ?s' = Some k"
    with handles_okD2 [OF ha, of k] show "k < length (timers ?s') \<and> task (timers ?s' ! k) = ReconnectTask"
      using tk [of k] by simp
  qed
  have beat: "beat_ok ?s'"
  proof (rule beat_okI)
    fix k assume k: "k < length (timers ?s')" "task (timers ?s' ! k) = HeartbeatTask"
        "active (timers ?s' ! k)"
    then have "k < length (timers s)" "task (timers s ! k) = HeartbeatTask" "active (timers s ! k)"
      using tk [of k] ac [of k] by (simp_all add: len)
    from beat_okD1 [OF b this] show "isConnected ?s' \<and> heartbeatTimer ?s' = Some k"
      by (simp add: con)
  next
    fix k assume k: "isConnected ?s'" "heartbeatTimer ?s' = Some k"
    then have c: "isConnected s" "heartbeatTimer s = Some k" by (simp_all add: con)
    from handles_okD1 [OF ha c(2)] h have "k < length (timers s)" "k \<noteq> h" by auto
    with beat_okD2 [OF b c] ac [of k] show "active (timers ?s' ! k)" by simp
  next
    assume "isConnected ?s'"
    then have "isConnected s" by (simp add: con)
    from beat_okD3 [OF b this] show "\<exists>h. heartbeatTimer ?s' = Some h" by simp
  next
    assume "\<not> isConnected ?s'"
    then have "\<not> isConnected s" by (simp add: con)
    from beat_okD4 [OF b this] show "heartbeatTimer ?s' = None" by simp
  qed
  from one han beat show ?thesis by (simp add: serial_inv_def)
qed

lemma inv_timer_fire: "serial_inv s \<Longrightarrow> admissible s (Timer_fire h now) \<Longrightarrow> serial_inv (step url_ok s (Timer_fire h now))"
proof -
  assume inv: "serial_inv s" and adm: "admissible s (Timer_fire h now)"
  show ?thesis
  proof (cases "h < length (timers s) \<and> active (timers s ! h)")
    case False
    then show ?thesis using inv by auto
  next
    case True
    show ?thesis
    proof (cases "task (timers s ! h)")
      case HeartbeatTask
      have "serial_inv (heartbeatTick now s)"
        using inv serial_inv_cong [of "heartbeatTick now s" s]
        by (simp add: heartbeatTick_def send_def split: option.splits)
      with True HeartbeatTask show ?thesis by simp
    next
      case ReconnectTask
      let ?s1 = "s\<lparr>timers := (timers s)[h := (timers s ! h)\<lparr>active := False\<rparr>]\<rparr>"
      have inv1: "serial_inv ?s1"
        using inv True ReconnectTask by (intro inv_disarm) simp_all
      have "isConnected ?s1 = isConnected s"
        by (rule isConnected_cong) simp_all
      moreover have "all_closed ?s1 = all_closed s" by (simp add: all_closed_def)
      ultimately have "isConnected ?s1 \<or> all_closed ?s1"
        using adm True ReconnectTask by simp
      from inv_connect [OF inv1 this] True ReconnectTask show ?thesis by simp
    qed
  qed
qed


lemma stopHeartbeat_fields:
  "ws (stopHeartbeat s) = ws s"
  "sockets (stopHeartbeat s) = sockets s"
  "heartbeatTimer (stopHeartbeat s) = None"
  "reconnectTimer (stopHeartbeat s) = reconnectTimer s"
  "reconnectCount (stopHeartbeat s) = reconnectCount s"
  "isManualClose (stopHeartbeat s) = isManualClose s"
  "callbacks (stopHeartbeat s) = callbacks s"
  "trace (stopHeartbeat s) = trace s"
  "length (timers (stopHeartbeat s)) = length (timers s)"
  by (simp_all add: stopHeartbeat_def clearTimer_def split: option.splits)

lemma stopHeartbeat_task:
  "k < length (timers s) \<Longrightarrow> task (timers (stopHeartbeat s) ! k) = task (timers s ! k)"
  by (simp add: stopHeartbeat_def clearTimer_def nth_list_update split: option.splits)

lemma stopHeartbeat_active:
  "k < length (timers s) \<Longrightarrow>
   active (timers (stopHeartbeat s) ! k) = (active (timers s ! k) \<and> heartbeatTimer s \<noteq> Some k)"
  by (auto simp: stopHeartbeat_def clearTimer_def nth_list_update split: option.splits)

lemma close_fields:
  "ws (close s) = None"
  "heartbeatTimer (close s) = None"
  "reconnectTimer (close s) = reconnectTimer s"
  "reconnectCount (close s) = reconnectCount s"
  "length (timers (close s)) = length (timers s)"
  "length (sockets (close s)) = length (sockets s)"
  by (simp_all add: close_def stopHeartbeat_def clearTimer_def Let_def split: option.splits)

lemma close_sockets:
  "k < length (sockets s) \<Longrightarrow>
   sockets (close s) ! k = (if ws s = Some k then socket_close (sockets s ! k) else sockets s ! k)"
  by (auto simp: close_def stopHeartbeat_def clearTimer_def Let_def nth_list_update
      split: option.splits)

lemma close_task:
  "k < length (timers s) \<Longrightarrow> task (timers (close s) ! k) = task (timers s ! k)"
  by (auto simp: close_def stopHeartbeat_def clearTimer_def Let_def nth_list_update
      split: option.splits)

lemma close_active:
  "k < length (timers s) \<Longrightarrow>
   active (timers (close s) ! k) =
     (active (timers s ! k) \<and> heartbeatTimer s \<noteq> Some k \<and> reconnectTimer s \<noteq> Some k)"
  by (auto simp: close_def stopHeartbeat_def clearTimer_def Let_def nth_list_update
      split: option.splits)

lemma socket_close_cases: "socket_close r = CLOSING \<or> socket_close r = CLOSED"
  by (cases r) (simp_all add: socket_close_def)

lemma inv_close:
  assumes inv: "serial_inv s"
  shows "serial_inv (close s)"
proof -
  from inv have o: "one_socket s" and ha: "handles_ok s" and b: "beat_ok s"
    by (simp_all add: serial_inv_def)
  have nc: "\<not> isConnected (close s)"
    by (simp add: isConnected_def close_fields)
  have one: "one_socket (close s)"
  proof (rule one_socketI)
    fix i assume i: "Suc i < length (sockets (close s))"
    then have lt: "Suc i < length (sockets s)" by (simp add: close_fields)
    with one_socketD2 [OF o, of i] have "ws s \<noteq> Some i" by auto
    with one_socketD1 [OF o lt] lt show "sockets (close s) ! i = CLOSED"
      by (simp add: close_sockets)
  next
    fix i assume "ws (close s) = Some i"
    then show "Suc i = length (sockets (close s))" by (simp add: close_fields)
  next
    fix i assume i: "i < length (sockets (close s))"
    then have lt: "i < length (sockets s)" by (simp add: close_fields)
    show "sockets (close s) ! i = CLOSING \<or> sockets (close s) ! i = CLOSED"
    proof (cases "ws s")
      case None
      from one_socketD3 [OF o None lt] None lt show ?thesis by (simp add: close_sockets)
    next
      case (Some j)
      show ?thesis
      proof (cases "j = i")
        case True
        with Some lt socket_close_cases [of "sockets s ! i"] show ?thesis
          by (simp add: close_sockets)
      next
        case False
        from one_socketD2 [OF o Some] False lt have "Suc i < length (sockets s)" by simp
        from one_socketD1 [OF o this] Some False lt show ?thesis by (simp add: close_sockets)
      qed
    qed
  qed
  have han: "handles_ok (close s)"
  proof (rule handles_okI)
    fix h assume "heartbeatTimer (close s) = Some h"
    then show "h < length (timers (close s)) \<and> task (timers (close s) ! h) = HeartbeatTask"
      by (simp add: close_fields)
  next
    fix h assume "reconnectTimer (close s) = Some h"
    then have "reconnectTimer s = Some h" by (simp add: close_fields)
    from handles_okD2 [OF ha this]
    show "h < length (timers (close s)) \<and> task (timers (close s) ! h) = ReconnectTask"
      by (simp add: close_fields close_task)
  qed
  have beat: "beat_ok (close s)"
  proof (rule beat_okI)
    fix h assume h: "h < length (timers (close s))" "task (timers (close s) ! h) = HeartbeatTask"
      "active (timers (close s) ! h)"
    then have lt: "h < length (timers s)" by (simp add: close_fields)
    with h have "task (timers s ! h) = HeartbeatTask" "active (timers s ! h)"
      "heartbeatTimer s \<noteq> Some h"
      by (simp_all add: close_task close_active)
    with beat_okD1 [OF b lt] show "isConnected (close s) \<and> heartbeatTimer (close s) = Some h"
      by simp
  next
    fix h assume "isConnected (close s)" with nc show "active (timers (close s) ! h)" by simp
  next
    assume "isConnected (close s)" with nc show "\<exists>h. heartbeatTimer (close s) = Some h" by simp
  next
    show "heartbeatTimer (close s) = None" by (simp add: close_fields)
  qed
  from one han beat show ?thesis by (simp add: serial_inv_def)
qed



lemma onopen_fields:
  "ws (onopen s) = ws s"
  "sockets (onopen s) = sockets s"
  "timers (onopen s) = timers s @ [\<lparr>task = HeartbeatTask, delay = 30000, active = True\<rparr>]"
  "heartbeatTimer (onopen s) = Some (length (timers s))"
  "reconnectTimer (onopen s) = reconnectTimer s"
  "reconnectCount (onopen s) = 0"
  by (simp_all add: onopen_def emit_def startHeartbeat_def setTimer_def WS_OPTIONS_def)

lemma onclose_fields:
  "ws (onclose s) = ws s"
  "sockets (onclose s) = sockets s"
  "heartbeatTimer (onclose s) = None"
  "isManualClose (onclose s) = isManualClose s"
  by (simp_all add: onclose_def emit_def attemptReconnect_def setTimer_def Let_def
      stopHeartbeat_fields)

lemma onclose_timers:
  "timers (onclose s) =
     timers (stopHeartbeat s) @
       (if \<not> isManualClose s \<and> reconnectCount s < 5
        then [\<lparr>task = ReconnectTask, delay = 3000, active = True\<rparr>] else [])"
  by (simp add: onclose_def emit_def attemptReconnect_def setTimer_def Let_def
      stopHeartbeat_fields WS_OPTIONS_def)

lemma onclose_reconnectTimer:
  "reconnectTimer (onclose s) =
     (if \<not> isManualClose s \<and> reconnectCount s < 5 then Some (length (timers s))
      else reconnectTimer s)"
  by (simp add: onclose_def emit_def attemptReconnect_def setTimer_def Let_def
      stopHeartbeat_fields WS_OPTIONS_def)



lemma inv_open:
  assumes inv: "serial_inv s" and i: "i < length (sockets s)" "sockets s ! i = CONNECTING"
  shows "serial_inv (onopen (s\<lparr>sockets := (sockets s)[i := OPEN]\<rparr>))"
proof -
  let ?s0 = "s\<lparr>sockets := (sockets s)[i := OPEN]\<rparr>"
  let ?s' = "onopen ?s0"
  from inv have o: "one_socket s" and ha: "handles_ok s" and b: "beat_ok s"
    by (simp_all add: serial_inv_def)
  have last: "Suc i = length (sockets s)"
    using one_socketD1 [OF o, of i] i by (cases "Suc i < length (sockets s)") auto
  have cur: "ws s = Some i"
  proof (cases "ws s")
    case None
    from one_socketD3 [OF o None i(1)] i(2) show ?thesis by simp
  next
    case (Some j)
    from one_socketD2 [OF o Some] last Some show ?thesis by simp
  qed
  have was: "\<not> isConnected s" using cur i by (simp add: isConnected_def)
  have f: "ws ?s' = Some i" "sockets ?s' = (sockets s)[i := OPEN]"
    "timers ?s' = timers s @ [\<lparr>task = HeartbeatTask, delay = 30000, active = True\<rparr>]"
    "heartbeatTimer ?s' = Some (length (timers s))"
    "reconnectTimer ?s' = reconnectTimer s"
    by (simp_all add: onopen_fields cur)
  have now: "isConnected ?s'" using i by (simp add: isConnected_def f)
  have one: "one_socket ?s'"
  proof (rule one_socketI)
    fix k assume "Suc k < length (sockets ?s')"
    then have lt: "Suc k < length (sockets s)" by (simp add: f)
    with last have "k \<noteq> i" by auto
    with one_socketD1 [OF o lt] lt show "sockets ?s' ! k = CLOSED" by (simp add: f)
  next
    fix k assume "ws ?s' = Some k"
    then have "k = i" by (simp add: f)
    moreover have "length (sockets ?s') = length (sockets s)" by (simp add: f)
    ultimately show "Suc k = length (sockets ?s')" using last by simp
  next
    fix k assume "ws ?s' = None"
    then show "sockets ?s' ! k = CLOSING \<or> sockets ?s' ! k = CLOSED" by (simp add: f)
  qed
  have han: "handles_ok ?s'"
  proof (rule handles_okI)
    fix h assume "heartbeatTimer ?s' = Some h"
    then show "h < length (timers ?s') \<and> task (timers ?s' ! h) = HeartbeatTask"
      by (auto simp: f)
  next
    fix h assume "reconnectTimer ?s' = Some h"
    then have "reconnectTimer s = Some h" by (simp add: f)
    from handles_okD2 [OF ha this]
    show "h < length (timers ?s') \<and> task (timers ?s' ! h) = ReconnectTask"
      by (simp add: f nth_append)
  qed
  have beat: "beat_ok ?s'"
  proof (rule beat_okI)
    fix h assume h: "h < length (timers ?s')" "task (timers ?s' ! h) = HeartbeatTask"
      "active (timers ?s' ! h)"
    have "h = length (timers s)"
    proof (rule ccontr)
      assume "h \<noteq> length (timers s)"
      with h have lt: "h < length (timers s)" by (simp add: f)
      with h have "task (timers s ! h) = HeartbeatTask" "active (timers s ! h)"
        by (simp_all add: f nth_append)
      from beat_okD1 [OF b lt this] was show False by simp
    qed
    with now show "isConnected ?s' \<and> heartbeatTimer ?s' = Some h" by (simp add: f)
  next
    fix h assume "heartbeatTimer ?s' = Some h"
    then show "active (timers ?s' ! h)" by (auto simp: f)
  next
    show "\<exists>h. heartbeatTimer ?s' = Some h" by (simp add: f)
  next
    assume "\<not> isConnected ?s'"
    with now show "heartbeatTimer ?s' = None" by simp
  qed
  from one han beat show ?thesis by (simp add: serial_inv_def)
qed

lemma inv_closed:
  assumes inv: "serial_inv s" and i: "i < length (sockets s)" "sockets s ! i \<noteq> CLOSED"
  shows "serial_inv (onclose (s\<lparr>sockets := (sockets s)[i := CLOSED]\<rparr>))"
proof -
  let ?s0 = "s\<lparr>sockets := (sockets s)[i := CLOSED]\<rparr>"
  let ?s' = "onclose ?s0"
  from inv have o: "one_socket s" and ha: "handles_ok s" and b: "beat_ok s"
    by (simp_all add: serial_inv_def)
  have last: "Suc i = length (sockets s)"
    using one_socketD1 [OF o, of i] i by (cases "Suc i < length (sockets s)") auto
  have f: "ws ?s' = ws s" "sockets ?s' = (sockets s)[i := CLOSED]"
    "heartbeatTimer ?s' = None"
    by (simp_all add: onclose_fields)
  have len0: "length (timers (stopHeartbeat ?s0)) = length (timers s)"
    by (simp add: stopHeartbeat_fields)
  have tm: "timers ?s' = timers (stopHeartbeat ?s0) @
       (if \<not> isManualClose s \<and> reconnectCount s < 5
        then [\<lparr>task = ReconnectTask, delay = 3000, active = True\<rparr>] else [])"
    by (simp add: onclose_timers)
  have old: "timers ?s' ! k = timers (stopHeartbeat ?s0) ! k" if "k < length (timers s)" for k
    using that by (simp add: tm nth_append len0)
  have tk: "task (timers ?s' ! k) = task (timers s ! k)" if "k < length (timers s)" for k
    using that stopHeartbeat_task [of k ?s0] by (simp add: old)
  have ac: "active (timers ?s' ! k) = (active (timers s ! k) \<and> heartbeatTimer s \<noteq> Some k)"
    if "k < length (timers s)" for k
    using that stopHeartbeat_active [of k ?s0] by (simp add: old)
  have new: "task (timers ?s' ! k) = ReconnectTask"
    if "k < length (timers ?s')" "\<not> k < length (timers s)" for k
    using that by (auto simp: tm nth_append len0 split: if_splits)
  have ge: "length (timers s) \<le> length (timers ?s')"
    by (simp add: tm len0)
  have nc: "\<not> isConnected ?s'"
  proof (cases "ws s")
    case None
    then show ?thesis by (simp add: isConnected_def f)
  next
    case (Some j)
    from one_socketD2 [OF o Some] last have "j = i" by simp
    with Some i show ?thesis by (simp add: isConnected_def f)
  qed
  have one: "one_socket ?s'"
  proof (rule one_socketI)
    fix k assume "Suc k < length (sockets ?s')"
    then have lt: "Suc k < length (sockets s)" by (simp add: f)
    with one_socketD1 [OF o lt] i(1) show "sockets ?s' ! k = CLOSED"
      by (simp add: f nth_list_update)
  next
    fix k assume "ws ?s' = Some k"
    then have "ws s = Some k" by (simp add: f)
    from one_socketD2 [OF o this] show "Suc k = length (sockets ?s')" by (simp add: f)
  next
    fix k assume k: "ws ?s' = None" "k < length (sockets ?s')"
    then have "ws s = None" "k < length (sockets s)" by (simp_all add: f)
    from one_socketD3 [OF o this] this(2) i(1)
    show "sockets ?s' ! k = CLOSING \<or> sockets ?s' ! k = CLOSED"
      by (auto simp: f nth_list_update)
  qed
  have han: "handles_ok ?s'"
  proof (rule handles_okI)
    fix h assume "heartbeatTimer ?s' = Some h"
    then show "h < length (timers ?s') \<and> task (timers ?s' ! h) = HeartbeatTask"
      by (simp add: f)
  next
    fix h assume h: "reconnectTimer ?s' = Some h"
    show "h < length (timers ?s') \<and> task (timers ?s' ! h) = ReconnectTask"
    proof (cases "\<not> isManualClose s \<and> reconnectCount s < 5")
      case True
      with h have "h = length (timers s)" by (simp add: onclose_reconnectTimer)
      with True show ?thesis by (simp add: tm len0 nth_append)
    next
      case False
      with h have "reconnectTimer s = Some h" by (auto simp: onclose_reconnectTimer)
      from handles_okD2 [OF ha this] ge tk [of h] show ?thesis by simp
    qed
  qed
  have beat: "beat_ok ?s'"
  proof (rule beat_okI)
    fix h assume h: "h < length (timers ?s')" "task (timers ?s' ! h) = HeartbeatTask"
      "active (timers ?s' ! h)"
    have lt: "h < length (timers s)"
      using new [of h] h by (cases "h < length (timers s)") simp_all
    with h have "task (timers s ! h) = HeartbeatTask" "active (timers s ! h)"
      "heartbeatTimer s \<noteq> Some h"
      by (simp_all add: tk ac)
    with beat_okD1 [OF b lt] show "isConnected ?s' \<and> heartbeatTimer ?s' = Some h" by simp
  next
    fix h assume "isConnected ?s'" with nc show "active (timers ?s' ! h)" by simp
  next
    assume "isConnected ?s'" with nc show "\<exists>h. heartbeatTimer ?s' = Some h" by simp
  next
    show "heartbeatTimer ?s' = None" by (simp add: f)
  qed
  from one han beat show ?thesis by (simp add: serial_inv_def)
qed

lemma inv_step: "serial_inv s \<Longrightarrow> admissible s e \<Longrightarrow> serial_inv (step url_ok s e)"
proof (cases e)
  case (Call_connect p)
  assume "serial_inv s" "admissible s e"
  with Call_connect show ?thesis by (simp add: inv_connect)
next
  case Call_close
  assume "serial_inv s"
  with Call_close show ?thesis by (simp add: inv_close)
next
  case (Call_on x c)
  assume "serial_inv s"
  with Call_on serial_inv_cong [of "step url_ok s e" s] show ?thesis by simp
next
  case (Call_off x c)
  assume "serial_inv s"
  with Call_off serial_inv_cong [of "step url_ok s e" s] show ?thesis by simp
next
  case (Call_send m)
  assume "serial_inv s"
  with Call_send serial_inv_cong [of "step url_ok s e" s] show ?thesis
    by (simp add: send_def split: option.splits)
next
  case (Socket_open i)
  assume "serial_inv s"
  with Socket_open show ?thesis by (simp add: inv_open)
next
  case (Socket_message i d)
  assume "serial_inv s"
  with Socket_message serial_inv_cong [of "step url_ok s e" s] show ?thesis
    by (simp add: handleMessage_def emit_def split: option.splits inbound.splits)
next
  case (Socket_error i)
  assume "serial_inv s"
  with Socket_error serial_inv_cong [of "step url_ok s e" s] show ?thesis
    by (simp add: onerror_def emit_def)
next
  case (Socket_close i)
  assume "serial_inv s"
  with Socket_close show ?thesis by (simp add: inv_closed)
next
  case (Timer_fire h now)
  assume "serial_inv s" "admissible s e"
  with Timer_fire show ?thesis by (simp only: inv_timer_fire)
qed

lemma inv_run: "serial_inv s \<Longrightarrow> serial url_ok s es \<Longrightarrow> serial_inv (run url_ok s es)"
  by (induction es arbitrary: s) (simp_all add: inv_step)

subsection \<open>Consequences of the invariant, and the reconnect counter\<close>

lemma one_socket_live: "one_socket s \<Longrightarrow> live s \<le> 1"
proof (cases "sockets s" rule: rev_cases)
  case Nil
  then show ?thesis by (simp add: live_def)
next
  case (snoc xs x)
  assume o: "one_socket s"
  have "r = CLOSED" if "r \<in> set xs" for r
  proof -
    from that obtain k where k: "k < length xs" "xs ! k = r" by (auto simp: in_set_conv_nth)
    with one_socketD1 [OF o, of k] snoc show ?thesis by (simp add: nth_append)
  qed
  then have "filter (\<lambda>r. r = CONNECTING \<or> r = OPEN) xs = []"
    by (auto simp: filter_empty_conv)
  with snoc show ?thesis by (simp add: live_def)
qed

lemma armed_iff:
  assumes "serial_inv s"
  shows "heartbeat_armed s = isConnected s"
proof
  from assms have ha: "handles_ok s" and b: "beat_ok s" by (simp_all add: serial_inv_def)
  {
    assume "heartbeat_armed s"
    then obtain t where "t \<in> set (timers s)" "task t = HeartbeatTask" "active t"
      by (auto simp: heartbeat_armed_def list_ex_iff)
    then obtain h where "h < length (timers s)" "task (timers s ! h) = HeartbeatTask"
      "active (timers s ! h)" by (auto simp: in_set_conv_nth)
    from beat_okD1 [OF b this] show "isConnected s" by simp
  }
  {
    assume c: "isConnected s"
    from beat_okD3 [OF b c] obtain h where h: "heartbeatTimer s = Some h" by blast
    from handles_okD1 [OF ha h] have "timers s ! h \<in> set (timers s)"
      "task (timers s ! h) = HeartbeatTask" by simp_all
    with beat_okD2 [OF b c h]
    show "heartbeat_armed s" unfolding heartbeat_armed_def list_ex_iff by blast
  }
qed



lemmas handler_defs = connect_def close_def onopen_def onclose_def onerror_def handleMessage_def
  emit_def send_def startHeartbeat_def stopHeartbeat_def heartbeatTick_def attemptReconnect_def
  setTimer_def clearTimer_def socket_close_def isConnected_def invoked_def WS_OPTIONS_def
  WS_PATH_def WS_BASE_URL_def any_url_def Let_def















section \<open>WebSocket manager: the claims\<close>

lemma run_append: "run url_ok s (es @ es') = run url_ok (run url_ok s es) es'"
  by (induction es arbitrary: s) simp_all

lemma closed_not_connected:
  assumes o: "one_socket s" and i: "i < length (sockets s)" "sockets s ! i \<noteq> CLOSED"
  shows "\<not> isConnected (onclose (s\<lparr>sockets := (sockets s)[i := CLOSED]\<rparr>))"
proof -
  have last: "Suc i = length (sockets s)"
    using one_socketD1 [OF o, of i] i by (cases "Suc i < length (sockets s)") auto
  show ?thesis
  proof (cases "ws s")
    case None
    then show ?thesis by (simp add: isConnected_def onclose_fields)
  next
    case (Some j)
    from one_socketD2 [OF o Some] last have "j = i" by simp
    with Some i show ?thesis by (simp add: isConnected_def onclose_fields)
  qed
qed

text \<open>
  Claim C1 (as amended). \<^verbatim>\<open>connect()\<close> while the current socket is open creates no
  socket and returns a resolved promise. In every other state, also while an earlier socket
  is still connecting, it sets the address and clears the manual-close flag; when the
  \<^verbatim>\<open>WebSocket\<close> constructor returns, one more socket is live: it is connecting, it is the
  current one, and the earlier sockets are left as they are; when the constructor throws,
  no socket is created and the promise is rejected. Along serial runs, where
  \<^verbatim>\<open>connect\<close> is never entered while an earlier socket is still in flight, at most one
  socket is live.
\<close>

theorem connect_short_circuit:
  "(isConnected s \<longrightarrow>
      connect url_ok path s = (s\<lparr>trace := trace s @ [Warned]\<rparr>, Resolved))
   \<and> (\<not> isConnected s \<and> url_ok (WS_BASE_URL @ path) \<longrightarrow>
      connect url_ok path s =
        (s\<lparr>url := WS_BASE_URL @ path, isManualClose := False,
           sockets := sockets s @ [CONNECTING], ws := Some (length (sockets s))\<rparr>,
         Pending (length (sockets s)))
    \<and> live (fst (connect url_ok path s)) = live s + 1)
   \<and> (\<not> isConnected s \<and> \<not> url_ok (WS_BASE_URL @ path) \<longrightarrow>
      connect url_ok path s =
        (s\<lparr>url := WS_BASE_URL @ path, isManualClose := False\<rparr>, Rejected))
   \<and> (serial url_ok constructor es \<longrightarrow> live (run url_ok constructor es) \<le> 1)"
proof -
  have "live (run url_ok constructor es) \<le> 1" if "serial url_ok constructor es"
  proof -
    from inv_run [OF inv_constructor that] have "one_socket (run url_ok constructor es)"
      by (simp add: serial_inv_def)
    then show ?thesis by (rule one_socket_live)
  qed
  then show ?thesis by (simp add: connect_def Let_def live_def)
qed

theorem connect_short_circuit_witness:
  "isConnected (run any_url constructor [Call_connect WS_PATH, Socket_open 0])
   \<and> sockets (fst (connect any_url WS_PATH
        (run any_url constructor [Call_connect WS_PATH, Socket_open 0]))) = [OPEN]
   \<and> snd (connect any_url WS_PATH
        (run any_url constructor [Call_connect WS_PATH, Socket_open 0])) = Resolved
   \<and> \<not> isConnected (run any_url constructor [Call_connect WS_PATH])
   \<and> any_url (WS_BASE_URL @ WS_PATH)
   \<and> sockets (fst (connect any_url WS_PATH (run any_url constructor [Call_connect WS_PATH])))
       = [CONNECTING, CONNECTING]
   \<and> snd (connect any_url WS_PATH (run any_url constructor [Call_connect WS_PATH])) = Pending 1
   \<and> \<not> no_url (WS_BASE_URL @ WS_PATH)
   \<and> sockets (fst (connect no_url WS_PATH (run any_url constructor [Call_connect WS_PATH])))
       = [CONNECTING]
   \<and> snd (connect no_url WS_PATH (run any_url constructor [Call_connect WS_PATH])) = Rejected
   \<and> serial any_url constructor [Call_connect WS_PATH, Socket_open 0, Socket_close 0]
   \<and> live (run any_url constructor [Call_connect WS_PATH, Socket_open 0, Socket_close 0]) \<le> 1"
proof -
  define so where "so = run any_url constructor [Call_connect WS_PATH, Socket_open 0]"
  define sc where "sc = run any_url constructor [Call_connect WS_PATH]"
  have opened: "isConnected so" "sockets so = [OPEN]"
    by (simp_all add: so_def constructor_def handler_defs)
  have pending: "\<not> isConnected sc" "sockets sc = [CONNECTING]"
    by (simp_all add: sc_def constructor_def handler_defs)
  have ok: "any_url (WS_BASE_URL @ WS_PATH)" by (simp add: any_url_def)
  have no: "\<not> no_url (WS_BASE_URL @ WS_PATH)" by (simp add: no_url_def)
  have ser: "serial any_url constructor [Call_connect WS_PATH, Socket_open 0, Socket_close 0]"
    by (simp add: constructor_def handler_defs all_closed_def)
  note at_open = connect_short_circuit
    [of so any_url WS_PATH "[Call_connect WS_PATH, Socket_open 0, Socket_close 0]"]
  note at_pending = connect_short_circuit [of sc any_url WS_PATH "[]"]
  note at_throw = connect_short_circuit [of sc no_url WS_PATH "[]"]
  from at_open opened have r1: "connect any_url WS_PATH so = (so\<lparr>trace := trace so @ [Warned]\<rparr>, Resolved)"
    by blast
  from at_pending pending ok have r2: "connect any_url WS_PATH sc =
        (sc\<lparr>url := WS_BASE_URL @ WS_PATH, isManualClose := False,
           sockets := sockets sc @ [CONNECTING], ws := Some (length (sockets sc))\<rparr>,
         Pending (length (sockets sc)))"
    by blast
  from at_throw pending no have r4: "connect no_url WS_PATH sc =
        (sc\<lparr>url := WS_BASE_URL @ WS_PATH, isManualClose := False\<rparr>, Rejected)"
    by blast
  from at_open ser
  have r3: "live (run any_url constructor [Call_connect WS_PATH, Socket_open 0, Socket_close 0]) \<le> 1"
    by blast
  have "sockets (fst (connect any_url WS_PATH so)) = [OPEN]"
    "snd (connect any_url WS_PATH so) = Resolved"
    "sockets (fst (connect any_url WS_PATH sc)) = [CONNECTING, CONNECTING]"
    "snd (connect any_url WS_PATH sc) = Pending 1"
    "sockets (fst (connect no_url WS_PATH sc)) = [CONNECTING]"
    "snd (connect no_url WS_PATH sc) = Rejected"
    by (simp_all add: r1 r2 r4 opened pending)
  with opened pending ok no ser r3 show ?thesis
    unfolding so_def sc_def by blast
qed

text \<open>
  The claim as stated fails: two calls of \<^verbatim>\<open>connect()\<close> in a row, the second while the first
  socket is still connecting, leave two live sockets.
\<close>

theorem connect_in_progress_counterexample:
  "sockets (run any_url constructor [Call_connect WS_PATH, Call_connect WS_PATH])
     = [CONNECTING, CONNECTING]
   \<and> live (run any_url constructor [Call_connect WS_PATH, Call_connect WS_PATH]) = 2"
  by (simp add: constructor_def handler_defs live_def)



lemma heartbeat_serial:
  assumes "serial url_ok constructor es" and "s = run url_ok constructor es"
  shows
    "heartbeat_armed s = isConnected s
   \<and> (heartbeatTimer s \<noteq> None) = isConnected s
   \<and> (i < length (sockets s) \<and> sockets s ! i = CONNECTING \<longrightarrow>
        timers (step url_ok s (Socket_open i)) =
          timers s @ [\<lparr>task = HeartbeatTask, delay = 30000, active = True\<rparr>]
      \<and> heartbeatTimer (step url_ok s (Socket_open i)) = Some (length (timers s))
      \<and> isConnected (step url_ok s (Socket_open i)))
   \<and> (isConnected s \<and> heartbeatTimer s = Some h \<longrightarrow>
        (\<exists>j. ws s = Some j \<and>
           step url_ok s (Timer_fire h now) = s\<lparr>trace := trace s @ [Transmitted j (Ping now)]\<rparr>))
   \<and> \<not> heartbeat_armed (close s)
   \<and> (i < length (sockets s) \<and> sockets s ! i \<noteq> CLOSED \<longrightarrow>
        \<not> heartbeat_armed (step url_ok s (Socket_close i)))"
proof -
  have inv: "serial_inv s"
    using assms inv_run [OF inv_constructor] by simp
  then have o: "one_socket s" and ha: "handles_ok s" and b: "beat_ok s"
    by (simp_all add: serial_inv_def)
  have p1: "heartbeat_armed s = isConnected s" by (rule armed_iff [OF inv])
  have p2: "(heartbeatTimer s \<noteq> None) = isConnected s"
  proof (cases "isConnected s")
    case True
    with beat_okD3 [OF b] show ?thesis by auto
  next
    case False
    with beat_okD4 [OF b] show ?thesis by simp
  qed
  have p3: "timers (step url_ok s (Socket_open i)) =
          timers s @ [\<lparr>task = HeartbeatTask, delay = 30000, active = True\<rparr>]
      \<and> heartbeatTimer (step url_ok s (Socket_open i)) = Some (length (timers s))
      \<and> isConnected (step url_ok s (Socket_open i))"
    if i: "i < length (sockets s)" "sockets s ! i = CONNECTING"
  proof -
    have st: "step url_ok s (Socket_open i) = onopen (s\<lparr>sockets := (sockets s)[i := OPEN]\<rparr>)"
      using i by simp
    have last: "Suc i = length (sockets s)"
      using one_socketD1 [OF o, of i] i by (cases "Suc i < length (sockets s)") auto
    have cur: "ws s = Some i"
    proof (cases "ws s")
      case None
      from one_socketD3 [OF o None i(1)] i(2) show ?thesis by simp
    next
      case (Some j)
      from one_socketD2 [OF o Some] last Some show ?thesis by simp
    qed
    from i cur show ?thesis unfolding st by (simp add: onopen_fields isConnected_def)
  qed
  have p4: "\<exists>j. ws s = Some j \<and>
           step url_ok s (Timer_fire h now) = s\<lparr>trace := trace s @ [Transmitted j (Ping now)]\<rparr>"
    if c: "isConnected s" and h: "heartbeatTimer s = Some h"
  proof -
    from handles_okD1 [OF ha h] beat_okD2 [OF b c h]
    have "h < length (timers s)" "task (timers s ! h) = HeartbeatTask" "active (timers s ! h)"
      by simp_all
    with c show ?thesis
      by (auto simp: heartbeatTick_def send_def isConnected_def split: option.splits)
  qed
  have p5: "\<not> heartbeat_armed (close s)"
  proof -
    have "serial_inv (close s)" by (rule inv_close [OF inv])
    from armed_iff [OF this] show ?thesis by (simp add: isConnected_def close_fields)
  qed
  have p6: "\<not> heartbeat_armed (step url_ok s (Socket_close i))"
    if i: "i < length (sockets s)" "sockets s ! i \<noteq> CLOSED"
  proof -
    have st: "step url_ok s (Socket_close i) = onclose (s\<lparr>sockets := (sockets s)[i := CLOSED]\<rparr>)"
      using i by simp
    have "serial_inv (onclose (s\<lparr>sockets := (sockets s)[i := CLOSED]\<rparr>))"
      by (rule inv_closed [OF inv i])
    from armed_iff [OF this] closed_not_connected [OF o i] show ?thesis
      unfolding st by simp
  qed
  from p3 have q3: "i < length (sockets s) \<and> sockets s ! i = CONNECTING \<longrightarrow>
        timers (step url_ok s (Socket_open i)) =
          timers s @ [\<lparr>task = HeartbeatTask, delay = 30000, active = True\<rparr>]
      \<and> heartbeatTimer (step url_ok s (Socket_open i)) = Some (length (timers s))
      \<and> isConnected (step url_ok s (Socket_open i))"
    by (intro impI) (elim conjE)
  from p4 have q4: "isConnected s \<and> heartbeatTimer s = Some h \<longrightarrow>
        (\<exists>j. ws s = Some j \<and>
           step url_ok s (Timer_fire h now) = s\<lparr>trace := trace s @ [Transmitted j (Ping now)]\<rparr>)"
    by (intro impI) (elim conjE)
  from p6 have q6: "i < length (sockets s) \<and> sockets s ! i \<noteq> CLOSED \<longrightarrow>
        \<not> heartbeat_armed (step url_ok s (Socket_close i))"
    by (intro impI) (elim conjE)
  from p1 p2 q3 q4 p5 q6 show ?thesis by (intro conjI)
qed

text \<open>
  Claim C8 (as amended). In every state: the open event of a connecting socket sets an
  interval of 30000 ms and stores its handle; when a heartbeat interval fires while the
  current socket is open, one ping with the clock's reading is sent on it, and when the
  current socket is not open nothing is sent; \<^verbatim>\<open>close()\<close> and the close event of a
  socket clear the timer behind the stored handle and set the handle to null. Along serial
  runs a heartbeat timer is armed if and only if the current socket is open,
  \<^verbatim>\<open>this.heartbeatTimer\<close> is set exactly then, and no heartbeat timer is armed after
  \<^verbatim>\<open>close()\<close> or after the close event of a socket.
\<close>

theorem heartbeat_while_open:
  "(i < length (sockets s) \<and> sockets s ! i = CONNECTING \<longrightarrow>
        timers (step url_ok s (Socket_open i)) =
          timers s @ [\<lparr>task = HeartbeatTask, delay = 30000, active = True\<rparr>]
      \<and> heartbeatTimer (step url_ok s (Socket_open i)) = Some (length (timers s)))
   \<and> (h < length (timers s) \<and> task (timers s ! h) = HeartbeatTask \<and> active (timers s ! h) \<longrightarrow>
        (isConnected s \<longrightarrow>
           (\<exists>j. ws s = Some j \<and>
              step url_ok s (Timer_fire h now) = s\<lparr>trace := trace s @ [Transmitted j (Ping now)]\<rparr>))
      \<and> (\<not> isConnected s \<longrightarrow> step url_ok s (Timer_fire h now) = s))
   \<and> heartbeatTimer (close s) = None
   \<and> (heartbeatTimer s = Some h \<and> h < length (timers s) \<longrightarrow>
        \<not> active (timers (close s) ! h))
   \<and> (i < length (sockets s) \<and> sockets s ! i \<noteq> CLOSED \<longrightarrow>
        heartbeatTimer (step url_ok s (Socket_close i)) = None
      \<and> (heartbeatTimer s = Some h \<and> h < length (timers s) \<longrightarrow>
           \<not> active (timers (step url_ok s (Socket_close i)) ! h)))
   \<and> (serial url_ok constructor es \<and> r = run url_ok constructor es \<longrightarrow>
        heartbeat_armed r = isConnected r
      \<and> (heartbeatTimer r \<noteq> None) = isConnected r
      \<and> (i < length (sockets r) \<and> sockets r ! i = CONNECTING \<longrightarrow>
           timers (step url_ok r (Socket_open i)) =
             timers r @ [\<lparr>task = HeartbeatTask, delay = 30000, active = True\<rparr>]
         \<and> heartbeatTimer (step url_ok r (Socket_open i)) = Some (length (timers r))
         \<and> isConnected (step url_ok r (Socket_open i)))
      \<and> (isConnected r \<and> heartbeatTimer r = Some h \<longrightarrow>
           (\<exists>j. ws r = Some j \<and>
              step url_ok r (Timer_fire h now) = r\<lparr>trace := trace r @ [Transmitted j (Ping now)]\<rparr>))
      \<and> \<not> heartbeat_armed (close r)
      \<and> (i < length (sockets r) \<and> sockets r ! i \<noteq> CLOSED \<longrightarrow>
           \<not> heartbeat_armed (step url_ok r (Socket_close i))))"
proof -
  have u1: "i < length (sockets s) \<and> sockets s ! i = CONNECTING \<longrightarrow>
        timers (step url_ok s (Socket_open i)) =
          timers s @ [\<lparr>task = HeartbeatTask, delay = 30000, active = True\<rparr>]
      \<and> heartbeatTimer (step url_ok s (Socket_open i)) = Some (length (timers s))"
    by (simp add: onopen_fields)
  have u2: "h < length (timers s) \<and> task (timers s ! h) = HeartbeatTask \<and> active (timers s ! h) \<longrightarrow>
        (isConnected s \<longrightarrow>
           (\<exists>j. ws s = Some j \<and>
              step url_ok s (Timer_fire h now) = s\<lparr>trace := trace s @ [Transmitted j (Ping now)]\<rparr>))
      \<and> (\<not> isConnected s \<longrightarrow> step url_ok s (Timer_fire h now) = s)"
    by (auto simp: heartbeatTick_def send_def isConnected_def split: option.splits)
  have u3: "heartbeatTimer (close s) = None"
    by (rule close_fields)
  have u4: "heartbeatTimer s = Some h \<and> h < length (timers s) \<longrightarrow>
        \<not> active (timers (close s) ! h)"
    by (simp add: close_active)
  have u5: "i < length (sockets s) \<and> sockets s ! i \<noteq> CLOSED \<longrightarrow>
        heartbeatTimer (step url_ok s (Socket_close i)) = None
      \<and> (heartbeatTimer s = Some h \<and> h < length (timers s) \<longrightarrow>
           \<not> active (timers (step url_ok s (Socket_close i)) ! h))"
  proof (intro impI conjI)
    assume i: "i < length (sockets s) \<and> sockets s ! i \<noteq> CLOSED"
    let ?c = "s\<lparr>sockets := (sockets s)[i := CLOSED]\<rparr>"
    have st: "step url_ok s (Socket_close i) = onclose ?c"
      using i by simp
    show "heartbeatTimer (step url_ok s (Socket_close i)) = None"
      unfolding st by (rule onclose_fields)
    assume h: "heartbeatTimer s = Some h \<and> h < length (timers s)"
    then have "\<not> active (timers (stopHeartbeat ?c) ! h)"
      by (simp add: stopHeartbeat_active)
    moreover have "h < length (timers (stopHeartbeat ?c))"
      using h by (simp add: stopHeartbeat_fields)
    ultimately show "\<not> active (timers (step url_ok s (Socket_close i)) ! h)"
      unfolding st by (simp add: onclose_timers nth_append)
  qed
  have u6: "serial url_ok constructor es \<and> r = run url_ok constructor es \<longrightarrow>
        heartbeat_armed r = isConnected r
      \<and> (heartbeatTimer r \<noteq> None) = isConnected r
      \<and> (i < length (sockets r) \<and> sockets r ! i = CONNECTING \<longrightarrow>
           timers (step url_ok r (Socket_open i)) =
             timers r @ [\<lparr>task = HeartbeatTask, delay = 30000, active = True\<rparr>]
         \<and> heartbeatTimer (step url_ok r (Socket_open i)) = Some (length (timers r))
         \<and> isConnected (step url_ok r (Socket_open i)))
      \<and> (isConnected r \<and> heartbeatTimer r = Some h \<longrightarrow>
           (\<exists>j. ws r = Some j \<and>
              step url_ok r (Timer_fire h now) = r\<lparr>trace := trace r @ [Transmitted j (Ping now)]\<rparr>))
      \<and> \<not> heartbeat_armed (close r)
      \<and> (i < length (sockets r) \<and> sockets r ! i \<noteq> CLOSED \<longrightarrow>
           \<not> heartbeat_armed (step url_ok r (Socket_close i)))"
  proof (rule impI, elim conjE)
    assume "serial url_ok constructor es" and "r = run url_ok constructor es"
    then show "heartbeat_armed r = isConnected r
      \<and> (heartbeatTimer r \<noteq> None) = isConnected r
      \<and> (i < length (sockets r) \<and> sockets r ! i = CONNECTING \<longrightarrow>
           timers (step url_ok r (Socket_open i)) =
             timers r @ [\<lparr>task = HeartbeatTask, delay = 30000, active = True\<rparr>]
         \<and> heartbeatTimer (step url_ok r (Socket_open i)) = Some (length (timers r))
         \<and> isConnected (step url_ok r (Socket_open i)))
      \<and> (isConnected r \<and> heartbeatTimer r = Some h \<longrightarrow>
           (\<exists>j. ws r = Some j \<and>
              step url_ok r (Timer_fire h now) = r\<lparr>trace := trace r @ [Transmitted j (Ping now)]\<rparr>))
      \<and> \<not> heartbeat_armed (close r)
      \<and> (i < length (sockets r) \<and> sockets r ! i \<noteq> CLOSED \<longrightarrow>
           \<not> heartbeat_armed (step url_ok r (Socket_close i)))"
      by (rule heartbeat_serial)
  qed
  from u1 u2 u3 u4 u5 u6 show ?thesis by (intro conjI)
qed

theorem heartbeat_while_open_witness:
  "serial any_url constructor [Call_connect WS_PATH]
   \<and> sockets (run any_url constructor [Call_connect WS_PATH]) ! 0 = CONNECTING
   \<and> timers (run any_url constructor [Call_connect WS_PATH, Socket_open 0])
       = [\<lparr>task = HeartbeatTask, delay = 30000, active = True\<rparr>]
   \<and> serial any_url constructor [Call_connect WS_PATH, Socket_open 0]
   \<and> isConnected (run any_url constructor [Call_connect WS_PATH, Socket_open 0])
   \<and> heartbeat_armed (run any_url constructor [Call_connect WS_PATH, Socket_open 0])
   \<and> heartbeatTimer (run any_url constructor [Call_connect WS_PATH, Socket_open 0]) = Some 0
   \<and> trace (run any_url constructor [Call_connect WS_PATH, Socket_open 0, Timer_fire 0 30000])
       = [Emitted ''open'' [], Transmitted 0 (Ping 30000)]
   \<and> heartbeatTimer (close (run any_url constructor [Call_connect WS_PATH, Socket_open 0])) = None
   \<and> \<not> active (timers (close (run any_url constructor [Call_connect WS_PATH, Socket_open 0])) ! 0)
   \<and> \<not> heartbeat_armed (close (run any_url constructor [Call_connect WS_PATH, Socket_open 0]))
   \<and> 0 < length (sockets (run any_url constructor [Call_connect WS_PATH, Socket_open 0]))
   \<and> sockets (run any_url constructor [Call_connect WS_PATH, Socket_open 0]) ! 0 \<noteq> CLOSED
   \<and> heartbeatTimer (run any_url constructor [Call_connect WS_PATH, Socket_open 0, Socket_close 0])
       = None
   \<and> \<not> active (timers (run any_url constructor
        [Call_connect WS_PATH, Socket_open 0, Socket_close 0]) ! 0)
   \<and> \<not> heartbeat_armed (run any_url constructor [Call_connect WS_PATH, Socket_open 0, Socket_close 0])
   \<and> active (timers (run any_url constructor overlapping) ! 0)
   \<and> \<not> isConnected (run any_url constructor overlapping)
   \<and> run any_url constructor (overlapping @ [Timer_fire 0 30000])
       = run any_url constructor overlapping"
proof -
  define s1 where "s1 = run any_url constructor [Call_connect WS_PATH]"
  define s2 where "s2 = run any_url constructor [Call_connect WS_PATH, Socket_open 0]"
  define sx where "sx = run any_url constructor overlapping"
  have ser: "serial any_url constructor [Call_connect WS_PATH, Socket_open 0]"
    "serial any_url constructor [Call_connect WS_PATH]"
    by (simp_all add: constructor_def handler_defs all_closed_def)
  have facts: "isConnected s2" "heartbeatTimer s2 = Some 0" "0 < length (sockets s2)"
    "sockets s2 ! 0 \<noteq> CLOSED" "trace s2 = [Emitted ''open'' []]" "ws s2 = Some 0"
    "0 < length (timers s2)" "task (timers s2 ! 0) = HeartbeatTask" "active (timers s2 ! 0)"
    by (simp_all add: s2_def constructor_def handler_defs)
  have facts1: "0 < length (sockets s1)" "sockets s1 ! 0 = CONNECTING" "timers s1 = []"
    by (simp_all add: s1_def constructor_def handler_defs)
  have factsx: "0 < length (timers sx)" "task (timers sx ! 0) = HeartbeatTask"
    "active (timers sx ! 0)" "\<not> isConnected sx"
    by (simp_all add: sx_def overlapping_def constructor_def handler_defs)
  have ext: "run any_url constructor [Call_connect WS_PATH, Socket_open 0, e] = step any_url s2 e"
    for e by (simp add: s2_def)
  have ext1: "s2 = step any_url s1 (Socket_open 0)"
    by (simp add: s1_def s2_def)
  have extx: "run any_url constructor (overlapping @ [e]) = step any_url sx e" for e
    by (simp add: sx_def run_append)
  note at_open = heartbeat_while_open [where s = s2 and i = 0 and h = 0 and now = 30000
      and url_ok = any_url and es = "[Call_connect WS_PATH, Socket_open 0]" and r = s2]
  note connecting = heartbeat_while_open [where s = s1 and i = 0 and h = 0 and now = 0
      and url_ok = any_url and es = "[Call_connect WS_PATH]" and r = s1]
  note crossed = heartbeat_while_open [where s = sx and i = 0 and h = 0 and now = 30000
      and url_ok = any_url and es = "[]" and r = constructor]
  note u1 = connecting [THEN conjunct1, rule_format, OF conjI, OF facts1(1) facts1(2)]
  note u2 = at_open [THEN conjunct2, THEN conjunct1, rule_format, OF conjI, OF facts(7) conjI,
      OF facts(8) facts(9)]
  note ux = crossed [THEN conjunct2, THEN conjunct1, rule_format, OF conjI, OF factsx(1) conjI,
      OF factsx(2) factsx(3)]
  note u3 = at_open [THEN conjunct2, THEN conjunct2, THEN conjunct1]
  note u4 = at_open [THEN conjunct2, THEN conjunct2, THEN conjunct2, THEN conjunct1, rule_format,
      OF conjI, OF facts(2) facts(7)]
  note u5 = at_open [THEN conjunct2, THEN conjunct2, THEN conjunct2, THEN conjunct2,
      THEN conjunct1, rule_format, OF conjI, OF facts(3) facts(4)]
  note u6 = at_open [THEN conjunct2, THEN conjunct2, THEN conjunct2, THEN conjunct2,
      THEN conjunct2, rule_format, OF conjI, OF ser(1) s2_def]
  from u2 [THEN conjunct1, rule_format, OF facts(1)]
  obtain j where j: "ws s2 = Some j"
    "step any_url s2 (Timer_fire 0 30000) = s2\<lparr>trace := trace s2 @ [Transmitted j (Ping 30000)]\<rparr>"
    by (elim exE conjE)
  with facts(6) have "j = 0" by simp
  with j(2) have tick: "trace (step any_url s2 (Timer_fire 0 30000))
       = [Emitted ''open'' [], Transmitted 0 (Ping 30000)]"
    by (simp add: facts)
  from ux [THEN conjunct2, rule_format, OF factsx(4)]
  have silent: "step any_url sx (Timer_fire 0 30000) = sx" .
  from u1 have "timers (step any_url s1 (Socket_open 0))
       = timers s1 @ [\<lparr>task = HeartbeatTask, delay = 30000, active = True\<rparr>]"
    by (rule conjunct1)
  then have tm: "timers s2 = [\<lparr>task = HeartbeatTask, delay = 30000, active = True\<rparr>]"
    by (simp only: ext1 [symmetric] facts1 append_Nil)
  from u6 [THEN conjunct1] facts(1) have armed: "heartbeat_armed s2" by simp
  from u6 have quiet: "\<not> heartbeat_armed (close s2)"
    by (elim conjE)
  from u6 [THEN conjunct2, THEN conjunct2, THEN conjunct2, THEN conjunct2, THEN conjunct2,
      rule_format, OF conjI, OF facts(3) facts(4)]
  have closed: "\<not> heartbeat_armed (step any_url s2 (Socket_close 0))" .
  from u5 have nulled: "heartbeatTimer (step any_url s2 (Socket_close 0)) = None"
    by (rule conjunct1)
  from u5 [THEN conjunct2, rule_format, OF conjI, OF facts(2) facts(7)]
  have cleared: "\<not> active (timers (step any_url s2 (Socket_close 0)) ! 0)" .
  from ser(2) facts1(2) tm ser(1) facts(1) armed facts(2) tick u3 u4 quiet facts(3) facts(4)
    nulled cleared closed factsx(3) factsx(4) silent
  show ?thesis
    unfolding ext extx unfolding s1_def s2_def sx_def by (intro conjI)
qed

text \<open>
  The claim as stated fails: the close event of a socket that \<^verbatim>\<open>close()\<close> dropped arrives
  after the next socket has opened, and its handler stops the heartbeat of the open socket.
  And after two sockets have opened one after the other, \<^verbatim>\<open>close()\<close> clears only the
  second heartbeat timer: the first one stays armed though no connection is open.
\<close>

theorem heartbeat_stale_close_counterexample:
  "isConnected (run any_url constructor stale_close)
   \<and> \<not> heartbeat_armed (run any_url constructor stale_close)
   \<and> heartbeatTimer (run any_url constructor stale_close) = None
   \<and> \<not> isConnected (close (run any_url constructor double_open))
   \<and> heartbeat_armed (close (run any_url constructor double_open))"
  by (simp add: stale_close_def double_open_def constructor_def handler_defs heartbeat_armed_def)


section \<open>Reader and feeder: lemmas\<close>

lemma read_loop_trace:
  "snd (read_loop body rejects chunks n tr) = tr @ alternating n body"
  by (induction body arbitrary: chunks n tr) simp_all

lemma read_loop_result:
  "fst (read_loop body rejects chunks n tr) =
     (if rejects then Inl ReadRejected else Inr (chunks @ body))"
  by (induction body arbitrary: chunks n tr) simp_all

lemma progress_alternating:
  "map fst (progress (alternating n body)) = totals n body
   \<and> map snd (progress (alternating n body)) = body"
  by (induction body arbitrary: n) simp_all

lemma totals_lower: "x \<in> set (totals n body) \<Longrightarrow> n \<le> x"
proof (induction body arbitrary: n)
  case Nil
  then show ?case by simp
next
  case (Cons v vs)
  from Cons.prems have "x = n + length v \<or> x \<in> set (totals (n + length v) vs)" by simp
  then show ?case
  proof
    assume "x = n + length v"
    then show ?thesis by simp
  next
    assume "x \<in> set (totals (n + length v) vs)"
    from Cons.IH [OF this] show ?thesis by simp
  qed
qed

lemma sorted_totals: "sorted (totals n body)"
proof (induction body arbitrary: n)
  case Nil
  then show ?case by simp
next
  case (Cons v vs)
  have "\<forall>x \<in> set (totals (n + length v) vs). n + length v \<le> x"
    using totals_lower by blast
  with Cons.IH [of "n + length v"] show ?case by simp
qed

lemma last_totals: "body \<noteq> [] \<Longrightarrow> last (totals n body) = n + sum_list (map length body)"
proof (induction body arbitrary: n)
  case Nil
  then show ?case by simp
next
  case (Cons v vs)
  show ?case
  proof (cases vs)
    case Nil
    then show ?thesis by simp
  next
    case (Cons w ws)
    then have "vs \<noteq> []" by simp
    from Cons.IH [OF this, of "n + length v"] Cons show ?thesis by (simp add: add.assoc)
  qed
qed

lemma length_totals: "length (totals n body) = length body"
  by (induction body arbitrary: n) simp_all

lemma totals_append:
  "totals n (xs @ ys) = totals n xs @ totals (n + sum_list (map length xs)) ys"
  by (induction xs arbitrary: n) (simp_all add: add.assoc)

lemma arrivals_append: "arrivals (xs @ ys) = arrivals xs @ arrivals ys"
  by (induction xs rule: arrivals.induct) simp_all

lemma reported_append: "reported (xs @ ys) = reported xs @ reported ys"
  by (induction xs rule: reported.induct) simp_all

lemma flush_loop_eq:
  "flush_loop accepted s =
     (case pendingChunks s of
        [] \<Rightarrow> s
      | chunk # rest \<Rightarrow>
          if sourceBuffer s \<noteq> Some False then s
          else if accepted
               then s\<lparr>pendingChunks := rest, sourceBuffer := Some True,
                      calls := calls s @ [AppendBuffer chunk]\<rparr>
               else s\<lparr>pendingChunks := rest, calls := calls s @ [AppendBufferFailed chunk]\<rparr>)"
  apply (subst flush_loop.simps)
  apply (simp add: appendBuffer_def split: list.splits)
  apply (subst flush_loop.simps)
  apply (simp split: list.splits)
  done

lemmas feed_defs = sourceopen_def deliver_def receive_def flushPendingChunks_def flush_loop_eq
  appendBuffer_def addSourceBuffer_def endOfStream_def choose_mime_def mime_of_def trim_def
  white_space_def Let_def postStreamRealtime_def

lemma deliver_quiet:
  "arrivals (calls (deliver accepted v s)) = arrivals (calls s)"
  "reported (calls (deliver accepted v s)) = reported (calls s)"
  "totalBytes (deliver accepted v s) = totalBytes s"
  by (simp_all add: deliver_def appendBuffer_def Let_def arrivals_append reported_append)

lemma flush_quiet:
  "arrivals (calls (flushPendingChunks accepted s)) = arrivals (calls s)"
  "reported (calls (flushPendingChunks accepted s)) = reported (calls s)"
  "totalBytes (flushPendingChunks accepted s) = totalBytes s"
  by (simp_all add: flushPendingChunks_def flush_loop_eq endOfStream_def Let_def
      arrivals_append reported_append split: list.splits)

lemma sourceopen_quiet:
  "arrivals (calls (sourceopen supported rt s)) = arrivals (calls s)"
  "reported (calls (sourceopen supported rt s)) = reported (calls s)"
  "totalBytes (sourceopen supported rt s) = totalBytes s"
  by (simp_all add: sourceopen_def addSourceBuffer_def Let_def arrivals_append reported_append)

lemma receive_calls:
  "\<exists>rest. calls (receive accepted v s) = calls s @ Progress (totalBytes s + length v) v # rest
     \<and> arrivals rest = [] \<and> reported rest = []"
  by (simp add: receive_def deliver_def appendBuffer_def Let_def)

lemma receive_total: "totalBytes (receive accepted v s) = totalBytes s + length v"
  by (simp add: receive_def deliver_def appendBuffer_def Let_def)

lemma summed_feed: "summed s \<Longrightarrow> summed (feed supported rt s e)"
proof (cases e)
  case SourceOpen
  assume "summed s"
  then show ?thesis
    using SourceOpen
    by (simp add: summed_def deliver_quiet sourceopen_quiet Let_def split: position.splits)
next
  case (Response ct)
  assume "summed s"
  then show ?thesis using Response by (simp add: summed_def split: option.splits)
next
  case (ReadChunk v accepted)
  assume s: "summed s"
  show ?thesis
  proof (cases "position s = AtRead")
    case False
    with s ReadChunk show ?thesis by simp
  next
    case True
    from receive_calls [of accepted v s] obtain rest where
      r: "calls (receive accepted v s) = calls s @ Progress (totalBytes s + length v) v # rest"
      "arrivals rest = []" "reported rest = []" by blast
    have "arrivals (calls (receive accepted v s)) = arrivals (calls s) @ [v]"
      "reported (calls (receive accepted v s)) = reported (calls s) @ [totalBytes s + length v]"
      by (simp_all add: r arrivals_append reported_append)
    with s True ReadChunk show ?thesis
      by (simp add: summed_def receive_total totals_append)
  qed
next
  case (ReadDone accepted)
  assume "summed s"
  then show ?thesis using ReadDone by (simp add: summed_def flush_quiet)
next
  case ReadFail
  assume "summed s"
  then show ?thesis using ReadFail by (simp add: summed_def)
next
  case (UpdateEnd accepted)
  assume "summed s"
  then show ?thesis using UpdateEnd by (simp add: summed_def flush_quiet)
next
  case PauseOver
  assume "summed s"
  then show ?thesis using PauseOver by (simp add: summed_def)
qed

lemma summed_run: "summed s \<Longrightarrow> summed (feed_run supported rt s es)"
  by (induction es arbitrary: s) (simp_all add: summed_feed)

lemma summed_start: "summed postStreamRealtime"
  by (simp add: summed_def postStreamRealtime_def)


subsection \<open>Order of submission and finalization\<close>

lemma submissions_append: "submissions (xs @ ys) = submissions xs @ submissions ys"
  by (induction xs rule: submissions.induct) simp_all

lemma held_accepted_if [simp]: "held p = [] \<Longrightarrow> held_accepted p"
  by (cases p) simp_all

lemma in_order_start: "in_order postStreamRealtime"
  by (simp add: in_order_def postStreamRealtime_def)

lemma in_order_deliver:
  assumes "arrivals (calls s) = submissions (calls s) @ pendingChunks s @ [v]"
    and "sourceBuffer s = Some False \<longrightarrow> pendingChunks s = []"
    and "opened s" and "isSourceOpen s"
  shows "in_order (deliver True v s)"
  using assms
  by (cases "sourceBuffer s")
    (auto simp: in_order_def deliver_def appendBuffer_def Let_def arrivals_append
      submissions_append)

lemma in_order_flush:
  assumes "arrivals (calls s) = submissions (calls s) @ pendingChunks s"
    and "opened s" and "isSourceOpen s" and "held (position s) = []"
  shows "in_order (flushPendingChunks True s)"
  using assms
  by (cases "pendingChunks s")
    (auto simp: in_order_def flushPendingChunks_def flush_loop_eq endOfStream_def Let_def
      arrivals_append submissions_append)

lemma in_order_sourceopen:
  assumes "in_order s" and "\<not> isSourceOpen s"
  shows "arrivals (calls (sourceopen supported rt s))
           = submissions (calls (sourceopen supported rt s)) @ held (position s)"
    and "pendingChunks (sourceopen supported rt s) = []"
    and "opened (sourceopen supported rt s)" and "isSourceOpen (sourceopen supported rt s)"
    and "position (sourceopen supported rt s) = position s"
  using assms
  by (auto simp: in_order_def sourceopen_def addSourceBuffer_def Let_def arrivals_append
      submissions_append)

lemma in_order_feed:
  assumes inv: "in_order s" and acc: "accepting e"
  shows "in_order (feed supported rt s e)"
proof (cases e)
  case SourceOpen
  show ?thesis
  proof (cases "isSourceOpen s")
    case True
    with inv SourceOpen show ?thesis by simp
  next
    case False
    note so = in_order_sourceopen [OF inv False, of supported rt]
    show ?thesis
    proof (cases "position s")
      case (AwaitOpen v accepted)
      with inv have "accepted" by (simp add: in_order_def)
      moreover have "in_order (deliver True v (sourceopen supported rt s))"
        using so AwaitOpen by (intro in_order_deliver) simp_all
      ultimately show ?thesis
        using SourceOpen False so(5) AwaitOpen by (simp add: Let_def)
    next
      case AwaitResponse
      with so SourceOpen False inv show ?thesis by (simp add: in_order_def Let_def)
    next
      case AtRead
      with so SourceOpen False inv show ?thesis by (simp add: in_order_def Let_def)
    next
      case Paused
      with so SourceOpen False inv show ?thesis by (simp add: in_order_def Let_def)
    next
      case Finished
      with so SourceOpen False inv show ?thesis by (simp add: in_order_def Let_def)
    qed
  qed
next
  case (Response ct)
  with inv show ?thesis by (auto simp: in_order_def split: option.splits)
next
  case (ReadChunk v accepted)
  with acc have a: "accepted" by simp
  show ?thesis
  proof (cases "position s = AtRead")
    case False
    with inv ReadChunk show ?thesis by simp
  next
    case True
    let ?s1 = "s\<lparr>totalBytes := totalBytes s + length v,
                 calls := calls s @ [Progress (totalBytes s + length v) v],
                 hasFirstChunk := True\<rparr>"
    show ?thesis
    proof (cases "opened s")
      case False
      with inv True ReadChunk a show ?thesis
        by (simp add: in_order_def receive_def Let_def arrivals_append submissions_append)
    next
      case opened: True
      have "in_order (deliver True v ?s1)"
        using inv True opened
        by (intro in_order_deliver)
          (simp_all add: in_order_def arrivals_append submissions_append)
      with True ReadChunk a opened show ?thesis by (simp add: receive_def Let_def)
    qed
  qed
next
  case (ReadDone accepted)
  with acc have a: "accepted" by simp
  show ?thesis
  proof (cases "position s = AtRead")
    case False
    with inv ReadDone show ?thesis by simp
  next
    case True
    show ?thesis
    proof (cases "opened s")
      case False
      with inv True ReadDone show ?thesis
        by (simp add: in_order_def flushPendingChunks_def)
    next
      case opened: True
      have "in_order (flushPendingChunks True (s\<lparr>streamEnded := True\<rparr>))"
        using inv True opened by (intro in_order_flush) (simp_all add: in_order_def)
      moreover have "position (flushPendingChunks True (s\<lparr>streamEnded := True\<rparr>)) = AtRead"
        using True
        by (simp add: flushPendingChunks_def flush_loop_eq endOfStream_def Let_def
            split: list.splits)
      ultimately
      have "in_order ((flushPendingChunks True (s\<lparr>streamEnded := True\<rparr>))\<lparr>position := Finished\<rparr>)"
        by (simp add: in_order_def)
      with True ReadDone a show ?thesis by simp
    qed
  qed
next
  case ReadFail
  with inv show ?thesis by (auto simp: in_order_def)
next
  case (UpdateEnd accepted)
  with acc have a: "accepted" by simp
  show ?thesis
  proof (cases "sourceBuffer s = Some True")
    case False
    with inv UpdateEnd show ?thesis by simp
  next
    case True
    with inv have opened: "opened s" by (auto simp: in_order_def)
    have "in_order (flushPendingChunks True (s\<lparr>sourceBuffer := Some False\<rparr>))"
      using inv True opened by (intro in_order_flush) (simp_all add: in_order_def)
    with True UpdateEnd a show ?thesis by simp
  qed
next
  case PauseOver
  with inv show ?thesis by (auto simp: in_order_def)
qed

lemma in_order_run:
  "in_order s \<Longrightarrow> list_all accepting es \<Longrightarrow> in_order (feed_run supported rt s es)"
  by (induction es arbitrary: s) (simp_all add: in_order_feed)

lemma submitted_in_arrival_order:
  assumes "list_all accepting es"
  shows "take (length (submissions (calls (feed_run supported rt postStreamRealtime es))))
           (arrivals (calls (feed_run supported rt postStreamRealtime es)))
         = submissions (calls (feed_run supported rt postStreamRealtime es))"
  using in_order_run [OF in_order_start assms, of supported rt]
  by (simp add: in_order_def)

lemma drained_start: "drained postStreamRealtime"
  by (simp add: drained_def postStreamRealtime_def finalized_def)

lemma drained_feed: "drained s \<Longrightarrow> drained (feed supported rt s e)"
proof (cases e)
  case SourceOpen
  assume "drained s"
  then show ?thesis
    using SourceOpen
    by (cases "position s")
      (auto simp: drained_def finalized_def sourceopen_def addSourceBuffer_def deliver_def
        appendBuffer_def Let_def)
next
  case (Response ct)
  assume "drained s"
  then show ?thesis using Response
    by (auto simp: drained_def finalized_def split: option.splits)
next
  case (ReadChunk v accepted)
  assume "drained s"
  then show ?thesis using ReadChunk
    by (auto simp: drained_def finalized_def receive_def deliver_def appendBuffer_def Let_def)
next
  case (ReadDone accepted)
  assume "drained s"
  then show ?thesis using ReadDone
    by (cases "pendingChunks s")
      (auto simp: drained_def finalized_def flushPendingChunks_def flush_loop_eq
        endOfStream_def Let_def)
next
  case ReadFail
  assume "drained s"
  then show ?thesis using ReadFail by (auto simp: drained_def finalized_def)
next
  case (UpdateEnd accepted)
  assume "drained s"
  then show ?thesis using UpdateEnd
    by (cases "pendingChunks s")
      (auto simp: drained_def finalized_def flushPendingChunks_def flush_loop_eq
        endOfStream_def Let_def)
next
  case PauseOver
  assume "drained s"
  then show ?thesis using PauseOver by (auto simp: drained_def finalized_def)
qed

lemma finalized_only_when_drained:
  "finalized (feed_run supported rt postStreamRealtime es) \<Longrightarrow>
   streamEnded (feed_run supported rt postStreamRealtime es)
   \<and> pendingChunks (feed_run supported rt postStreamRealtime es) = []
   \<and> sourceBuffer (feed_run supported rt postStreamRealtime es) = Some False"
proof -
  have "drained s \<Longrightarrow> drained (feed_run supported rt s es)" for s
    by (induction es arbitrary: s) (simp_all add: drained_feed)
  from this [OF drained_start] show "finalized (feed_run supported rt postStreamRealtime es) \<Longrightarrow>
   streamEnded (feed_run supported rt postStreamRealtime es)
   \<and> pendingChunks (feed_run supported rt postStreamRealtime es) = []
   \<and> sourceBuffer (feed_run supported rt postStreamRealtime es) = Some False"
    by (simp add: drained_def)
qed


section \<open>Reader and feeder: the claims\<close>

text \<open>
  Claim C9. For every body, \<^verbatim>\<open>postStream\<close> calls the progress callback once per chunk,
  after the read that delivered the chunk and before the next read; the values of
  \<^verbatim>\<open>received\<close> are the running totals of the chunk lengths, so they never decrease and
  the last one is the sum of all lengths. The read loop of \<^verbatim>\<open>postStreamRealtime\<close> reports
  the same running totals in every run: each chunk read is reported first thing in its
  turn, and no other event reports progress.
\<close>

theorem progress_running_totals:
  "(200 \<le> status \<and> status \<le> 299 \<longrightarrow>
      snd (postStream status body rejects) = alternating 0 body
    \<and> map fst (progress (snd (postStream status body rejects))) = totals 0 body
    \<and> map snd (progress (snd (postStream status body rejects))) = body)
   \<and> sorted (totals 0 body)
   \<and> length (totals 0 body) = length body
   \<and> (body \<noteq> [] \<longrightarrow> last (totals 0 body) = sum_list (map length body))
   \<and> reported (calls (feed_run supported rt postStreamRealtime es))
       = totals 0 (arrivals (calls (feed_run supported rt postStreamRealtime es)))
   \<and> totalBytes (feed_run supported rt postStreamRealtime es)
       = sum_list (map length (arrivals (calls (feed_run supported rt postStreamRealtime es))))
   \<and> (position s = AtRead \<longrightarrow>
        (\<exists>rest. calls (feed supported rt s (ReadChunk v accepted))
                  = calls s @ Progress (totalBytes s + length v) v # rest
                \<and> arrivals rest = []))
   \<and> (\<not> is_read_chunk e \<longrightarrow>
        arrivals (calls (feed supported rt s e)) = arrivals (calls s))"
proof -
  have a: "snd (postStream status body rejects) = alternating 0 body
    \<and> map fst (progress (snd (postStream status body rejects))) = totals 0 body
    \<and> map snd (progress (snd (postStream status body rejects))) = body"
    if "200 \<le> status \<and> status \<le> 299"
    using that progress_alternating [of 0 body]
    by (simp add: postStream_def read_loop_trace)
  have b: "sorted (totals 0 body)" by (rule sorted_totals)
  have c: "body \<noteq> [] \<longrightarrow> last (totals 0 body) = sum_list (map length body)"
    using last_totals [of body 0] by simp
  have d: "reported (calls (feed_run supported rt postStreamRealtime es))
       = totals 0 (arrivals (calls (feed_run supported rt postStreamRealtime es)))
   \<and> totalBytes (feed_run supported rt postStreamRealtime es)
       = sum_list (map length (arrivals (calls (feed_run supported rt postStreamRealtime es))))"
    using summed_run [OF summed_start, of supported rt es] by (simp add: summed_def)
  have e: "\<exists>rest. calls (feed supported rt s (ReadChunk v accepted))
                  = calls s @ Progress (totalBytes s + length v) v # rest
                \<and> arrivals rest = []"
    if "position s = AtRead"
    using that receive_calls [of accepted v s] by auto
  have f: "arrivals (calls (feed supported rt s e)) = arrivals (calls s)"
    if "\<not> is_read_chunk e"
    using that
    by (cases e)
      (simp_all add: deliver_quiet sourceopen_quiet flush_quiet Let_def
        split: position.splits option.splits)
  from a b c d e f length_totals [of 0 body] show ?thesis by blast
qed

theorem progress_running_totals_witness:
  "(200::nat) \<le> 200 \<and> (200::nat) \<le> 299
   \<and> snd (postStream 200 [[1, 2], [], [3]] False)
       = [Read, OnChunk 2 [1, 2], Read, OnChunk 2 [], Read, OnChunk 3 [3], Read]
   \<and> map fst (progress (snd (postStream 200 [[1, 2], [], [3]] False))) = [2, 2, 3]
   \<and> [[1, 2], [], [3 :: 8 word]] \<noteq> []
   \<and> last (totals 0 [[1, 2], [], [3 :: 8 word]]) = 3
   \<and> position (feed_run mp3_only None postStreamRealtime [SourceOpen, Response None]) = AtRead
   \<and> reported (calls (feed_run mp3_only None postStreamRealtime
        [SourceOpen, Response None, ReadChunk [1, 2] True, ReadChunk [3] True])) = [2, 3]
   \<and> \<not> is_read_chunk (UpdateEnd True)"
proof -
  define r where "r = feed_run mp3_only None postStreamRealtime
      [SourceOpen, Response None, ReadChunk [1, 2] True, ReadChunk [3] True]"
  define s0 where "s0 = feed_run mp3_only None postStreamRealtime [SourceOpen, Response None]"
  define out where "out = postStream 200 [[1, 2], [], [3]] False"
  note inst = progress_running_totals [of 200 "[[1, 2], [], [3]]" False mp3_only None
      "[SourceOpen, Response None, ReadChunk [1, 2] True, ReadChunk [3] True]"
      s0 "[1, 2]" True "UpdateEnd True"]
  have ok: "(200::nat) \<le> 200 \<and> (200::nat) \<le> 299" by simp
  have tr: "alternating 0 [[1, 2], [], [3 :: 8 word]]
      = [Read, OnChunk 2 [1, 2], Read, OnChunk 2 [], Read, OnChunk 3 [3], Read]"
    "totals 0 [[1, 2], [], [3 :: 8 word]] = [2, 2, 3]"
    by simp_all
  have arr: "arrivals (calls r) = [[1, 2], [3]]"
    by (simp add: r_def feed_defs mp3_only_def)
  have pos: "position s0 = AtRead"
    by (simp add: s0_def feed_defs mp3_only_def)
  from inst [THEN conjunct1, rule_format, OF ok]
  have p1: "snd out = alternating 0 [[1, 2], [], [3]]"
    "map fst (progress (snd out)) = totals 0 [[1, 2], [], [3]]"
    unfolding out_def by blast+
  from inst [THEN conjunct2, THEN conjunct2, THEN conjunct2, THEN conjunct1]
  have p2: "last (totals 0 [[1, 2], [], [3 :: 8 word]]) = 3" by simp
  from inst [THEN conjunct2, THEN conjunct2, THEN conjunct2, THEN conjunct2, THEN conjunct1]
  have p3: "reported (calls r) = totals 0 (arrivals (calls r))"
    unfolding r_def .
  have p4: "reported (calls r) = [2, 3]"
    by (simp add: p3 arr)
  from ok p1 p2 p4 pos tr
  have "(200::nat) \<le> 200 \<and> (200::nat) \<le> 299
   \<and> snd out = [Read, OnChunk 2 [1, 2], Read, OnChunk 2 [], Read, OnChunk 3 [3], Read]
   \<and> map fst (progress (snd out)) = [2, 2, 3]
   \<and> [[1, 2], [], [3 :: 8 word]] \<noteq> []
   \<and> last (totals 0 [[1, 2], [], [3 :: 8 word]]) = 3
   \<and> position s0 = AtRead
   \<and> reported (calls r) = [2, 3]
   \<and> \<not> is_read_chunk (UpdateEnd True)"
    by simp
  then show ?thesis
    unfolding r_def s0_def out_def .
qed

text \<open>
  Claim C4 (as amended). At a read step taken when the writer exists, the loop pauses for
  50 ms before the next read exactly when more than 5 chunks are queued after the chunk has
  been handled. At a read step taken when no writer exists, the chunk is queued and the
  next read is requested without a pause, however long the queue is. While the
  loop is pausing no chunk is read.
\<close>

theorem pause_when_backlogged:
  "(position s = AtRead \<and> opened s \<and> isSourceOpen s \<and> sourceBuffer s \<noteq> None \<longrightarrow>
      (position (feed supported rt s (ReadChunk v accepted)) = Paused)
        = (5 < length (pendingChunks (feed supported rt s (ReadChunk v accepted))))
    \<and> (position (feed supported rt s (ReadChunk v accepted)) = Paused \<longrightarrow>
         last (calls (feed supported rt s (ReadChunk v accepted))) = Pause 50)
    \<and> (position (feed supported rt s (ReadChunk v accepted)) \<noteq> Paused \<longrightarrow>
         position (feed supported rt s (ReadChunk v accepted)) = AtRead))
   \<and> (position s = AtRead \<and> opened s \<and> sourceBuffer s = None \<longrightarrow>
        position (feed supported rt s (ReadChunk v accepted)) = AtRead
      \<and> pendingChunks (feed supported rt s (ReadChunk v accepted)) = pendingChunks s @ [v]
      \<and> calls (feed supported rt s (ReadChunk v accepted))
          = calls s @ [Progress (totalBytes s + length v) v])
   \<and> (position s = Paused \<longrightarrow>
        feed supported rt s (ReadChunk v accepted) = s
      \<and> position (feed supported rt s PauseOver) = AtRead)"
  by (simp add: receive_def deliver_def appendBuffer_def Let_def)

theorem pause_when_backlogged_witness:
  "position (feed_run mp3_only None postStreamRealtime busy_writer_backlog) = AtRead
   \<and> opened (feed_run mp3_only None postStreamRealtime busy_writer_backlog)
   \<and> isSourceOpen (feed_run mp3_only None postStreamRealtime busy_writer_backlog)
   \<and> sourceBuffer (feed_run mp3_only None postStreamRealtime busy_writer_backlog) \<noteq> None
   \<and> length (pendingChunks (feed_run mp3_only None postStreamRealtime
        (busy_writer_backlog @ [ReadChunk [6] True]))) = 6
   \<and> position (feed_run mp3_only None postStreamRealtime
        (busy_writer_backlog @ [ReadChunk [6] True])) = Paused
   \<and> feed_run mp3_only None postStreamRealtime
        (busy_writer_backlog @ [ReadChunk [6] True, ReadChunk [7] True])
       = feed_run mp3_only None postStreamRealtime (busy_writer_backlog @ [ReadChunk [6] True])
   \<and> position (feed_run nothing_supported None postStreamRealtime
        [SourceOpen, Response None]) = AtRead
   \<and> opened (feed_run nothing_supported None postStreamRealtime [SourceOpen, Response None])
   \<and> sourceBuffer (feed_run nothing_supported None postStreamRealtime
        [SourceOpen, Response None]) = None
   \<and> position (feed_run nothing_supported None postStreamRealtime
        [SourceOpen, Response None, ReadChunk [1] True]) = AtRead"
proof -
  define b where "b = feed_run mp3_only None postStreamRealtime busy_writer_backlog"
  define p where "p = feed mp3_only None b (ReadChunk [6] True)"
  define n where "n = feed_run nothing_supported None postStreamRealtime [SourceOpen, Response None]"
  have fb: "position b = AtRead" "opened b" "isSourceOpen b" "sourceBuffer b \<noteq> None"
    "length (pendingChunks b) = 5"
    by (simp_all add: b_def busy_writer_backlog_def feed_defs mp3_only_def)
  have fp: "length (pendingChunks p) = 6"
    by (simp add: p_def b_def busy_writer_backlog_def feed_defs mp3_only_def)
  have fn: "position n = AtRead" "opened n" "sourceBuffer n = None"
    by (simp_all add: n_def feed_defs nothing_supported_def)
  have run_snoc: "feed_run supported rt s (es @ [e]) = feed supported rt (feed_run supported rt s es) e"
    for supported rt s es e by (induction es arbitrary: s) simp_all
  have r1: "feed_run mp3_only None postStreamRealtime (busy_writer_backlog @ [ReadChunk [6] True]) = p"
    by (simp only: run_snoc p_def b_def)
  have r2: "feed_run mp3_only None postStreamRealtime
        (busy_writer_backlog @ [ReadChunk [6] True, ReadChunk [7] True])
      = feed mp3_only None p (ReadChunk [7] True)"
    using run_snoc [of mp3_only None postStreamRealtime "busy_writer_backlog @ [ReadChunk [6] True]"
        "ReadChunk [7] True"]
    by (simp only: r1 append_assoc append_Cons append_Nil)
  have r3: "feed_run nothing_supported None postStreamRealtime
        [SourceOpen, Response None, ReadChunk [1] True] = feed nothing_supported None n (ReadChunk [1] True)"
    using run_snoc [of nothing_supported None postStreamRealtime "[SourceOpen, Response None]"
        "ReadChunk [1] True"]
    by (simp only: n_def append_Cons append_Nil)
  note at_b = pause_when_backlogged [of b mp3_only None "[6]" True]
  note at_p = pause_when_backlogged [of p mp3_only None "[7]" True]
  note at_n = pause_when_backlogged [of n nothing_supported None "[1]" True]
  from at_b fb fp have paused: "position p = Paused"
    unfolding p_def [symmetric] by simp
  with at_p have stuck: "feed mp3_only None p (ReadChunk [7] True) = p" by simp
  from at_n fn have free: "position (feed nothing_supported None n (ReadChunk [1] True)) = AtRead"
    by simp
  from fb(1-4) fp paused stuck fn free show ?thesis
    unfolding r1 r2 r3 unfolding b_def [symmetric] n_def [symmetric] by simp
qed

text \<open>
  The claim as stated fails: after the writer could not be created, seven chunks are queued
  one after the other and the loop never pauses.
\<close>

theorem pause_without_writer_counterexample:
  "sourceBuffer (feed_run nothing_supported None postStreamRealtime no_writer_backlog) = None
   \<and> length (pendingChunks (feed_run nothing_supported None postStreamRealtime no_writer_backlog)) = 7
   \<and> position (feed_run nothing_supported None postStreamRealtime no_writer_backlog) = AtRead
   \<and> Pause 50 \<notin> set (calls (feed_run nothing_supported None postStreamRealtime no_writer_backlog))"
  by (simp add: no_writer_backlog_def feed_defs nothing_supported_def)

text \<open>
  Claim C6 (as amended). When creating the writer with the type in use fails and a
  content-type other than \<^verbatim>\<open>audio/mpeg\<close> was detected, creation is retried exactly once,
  with \<^verbatim>\<open>audio/mpeg\<close>. When the detected type is \<^verbatim>\<open>audio/mpeg\<close> itself, or none was
  detected, there is no retry. In every case the listener resolves the promise the read
  loop waits for, the stream is not ended, and while no writer exists every later chunk is
  appended to the queue.
\<close>

theorem writer_fallback:
  "(detectedMimeType s = Some t \<and> t \<noteq> [] \<and> t \<noteq> ''audio/mpeg'' \<and> \<not> supported t \<longrightarrow>
      attempts (calls (sourceopen supported rt s)) = attempts (calls s) @ [t, ''audio/mpeg'']
    \<and> sourceBuffer (sourceopen supported rt s)
        = (if supported ''audio/mpeg'' then Some False else sourceBuffer s))
   \<and> (detectedMimeType s = Some ''audio/mpeg'' \<and> \<not> supported ''audio/mpeg'' \<longrightarrow>
      attempts (calls (sourceopen supported rt s)) = attempts (calls s) @ [''audio/mpeg'']
    \<and> sourceBuffer (sourceopen supported rt s) = sourceBuffer s)
   \<and> (\<not> truthy (detectedMimeType s) \<and> \<not> supported (choose_mime None rt) \<longrightarrow>
      attempts (calls (sourceopen supported rt s)) = attempts (calls s) @ [choose_mime None rt]
    \<and> sourceBuffer (sourceopen supported rt s) = sourceBuffer s)
   \<and> opened (sourceopen supported rt s)
   \<and> streamEnded (sourceopen supported rt s) = streamEnded s
   \<and> pendingChunks (sourceopen supported rt s) = pendingChunks s
   \<and> (position s = AtRead \<and> opened s \<and> sourceBuffer s = None \<longrightarrow>
        pendingChunks (feed supported rt s (ReadChunk v accepted)) = pendingChunks s @ [v]
      \<and> position (feed supported rt s (ReadChunk v accepted)) = AtRead
      \<and> streamEnded (feed supported rt s (ReadChunk v accepted)) = streamEnded s)"
proof -
  have app: "attempts (xs @ ys) = attempts xs @ attempts ys" for xs ys
    by (induction xs rule: attempts.induct) simp_all
  have p1: "attempts (calls (sourceopen supported rt s)) = attempts (calls s) @ [t, ''audio/mpeg'']
    \<and> sourceBuffer (sourceopen supported rt s)
        = (if supported ''audio/mpeg'' then Some False else sourceBuffer s)"
    if "detectedMimeType s = Some t \<and> t \<noteq> [] \<and> t \<noteq> ''audio/mpeg'' \<and> \<not> supported t"
    using that by (simp add: sourceopen_def addSourceBuffer_def Let_def app choose_mime_def)
  have p2: "attempts (calls (sourceopen supported rt s)) = attempts (calls s) @ [''audio/mpeg'']
    \<and> sourceBuffer (sourceopen supported rt s) = sourceBuffer s"
    if "detectedMimeType s = Some ''audio/mpeg'' \<and> \<not> supported ''audio/mpeg''"
    using that by (simp add: sourceopen_def addSourceBuffer_def Let_def app choose_mime_def)
  have p3: "attempts (calls (sourceopen supported rt s)) = attempts (calls s) @ [choose_mime None rt]
    \<and> sourceBuffer (sourceopen supported rt s) = sourceBuffer s"
    if h: "\<not> truthy (detectedMimeType s) \<and> \<not> supported (choose_mime None rt)"
  proof -
    from h have "choose_mime (detectedMimeType s) rt = choose_mime None rt"
      by (cases "detectedMimeType s") (simp_all add: choose_mime_def)
    with h show ?thesis
      by (simp add: sourceopen_def addSourceBuffer_def Let_def app)
  qed
  have p4: "opened (sourceopen supported rt s)
   \<and> streamEnded (sourceopen supported rt s) = streamEnded s
   \<and> pendingChunks (sourceopen supported rt s) = pendingChunks s"
    by (simp add: sourceopen_def addSourceBuffer_def Let_def)
  have p5: "pendingChunks (feed supported rt s (ReadChunk v accepted)) = pendingChunks s @ [v]
      \<and> position (feed supported rt s (ReadChunk v accepted)) = AtRead
      \<and> streamEnded (feed supported rt s (ReadChunk v accepted)) = streamEnded s"
    if "position s = AtRead \<and> opened s \<and> sourceBuffer s = None"
    using that by (simp add: receive_def deliver_def Let_def)
  from p1 p2 p3 p4 p5 show ?thesis by blast
qed

theorem writer_fallback_witness:
  "detectedMimeType detected_ogg = Some ''audio/ogg'' \<and> ''audio/ogg'' \<noteq> []
   \<and> ''audio/ogg'' \<noteq> ''audio/mpeg'' \<and> \<not> mp3_only ''audio/ogg''
   \<and> attempts (calls (sourceopen mp3_only None detected_ogg)) = [''audio/ogg'', ''audio/mpeg'']
   \<and> sourceBuffer (sourceopen mp3_only None detected_ogg) = Some False
   \<and> detectedMimeType unsupported_mp3 = Some ''audio/mpeg'' \<and> \<not> nothing_supported ''audio/mpeg''
   \<and> attempts (calls (sourceopen nothing_supported None unsupported_mp3)) = [''audio/mpeg'']
   \<and> \<not> truthy (detectedMimeType postStreamRealtime)
   \<and> \<not> nothing_supported (choose_mime None (Some ''audio/wav''))
   \<and> attempts (calls (sourceopen nothing_supported (Some ''audio/wav'') postStreamRealtime))
       = [''audio/wav'']
   \<and> position (feed_run nothing_supported None postStreamRealtime [SourceOpen, Response None])
       = AtRead
   \<and> opened (feed_run nothing_supported None postStreamRealtime [SourceOpen, Response None])
   \<and> sourceBuffer (feed_run nothing_supported None postStreamRealtime [SourceOpen, Response None])
       = None
   \<and> pendingChunks (feed_run nothing_supported None postStreamRealtime
        [SourceOpen, Response None, ReadChunk [1] True]) = [[1]]"
proof -
  define n where "n = feed_run nothing_supported None postStreamRealtime [SourceOpen, Response None]"
  have pre_ogg: "detectedMimeType detected_ogg = Some ''audio/ogg'' \<and> ''audio/ogg'' \<noteq> []
      \<and> ''audio/ogg'' \<noteq> ''audio/mpeg'' \<and> \<not> mp3_only ''audio/ogg''"
    by (simp add: detected_ogg_def postStreamRealtime_def mp3_only_def)
  have pre_mp3: "detectedMimeType unsupported_mp3 = Some ''audio/mpeg''
      \<and> \<not> nothing_supported ''audio/mpeg''"
    by (simp add: unsupported_mp3_def postStreamRealtime_def nothing_supported_def)
  have pre_none: "\<not> truthy (detectedMimeType postStreamRealtime)
      \<and> \<not> nothing_supported (choose_mime None (Some ''audio/wav''))"
    by (simp add: postStreamRealtime_def nothing_supported_def)
  have pre_n: "position n = AtRead \<and> opened n \<and> sourceBuffer n = None"
    by (simp add: n_def feed_defs nothing_supported_def)
  have empty: "calls detected_ogg = []" "calls unsupported_mp3 = []" "calls postStreamRealtime = []"
    "pendingChunks n = []" "mp3_only ''audio/mpeg''"
    "choose_mime None (Some ''audio/wav'') = ''audio/wav''"
    by (simp_all add: detected_ogg_def unsupported_mp3_def postStreamRealtime_def n_def feed_defs
        nothing_supported_def mp3_only_def choose_mime_def)
  have step_n: "feed_run nothing_supported None postStreamRealtime
        [SourceOpen, Response None, ReadChunk [1] True] = feed nothing_supported None n (ReadChunk [1] True)"
    by (simp add: n_def)
  note ogg = writer_fallback [of detected_ogg "''audio/ogg''" mp3_only None "[1]" True,
      THEN conjunct1, rule_format, OF pre_ogg]
  note mp3 = writer_fallback [of unsupported_mp3 "''audio/ogg''" nothing_supported None "[1]" True,
      THEN conjunct2, THEN conjunct1, rule_format, OF pre_mp3]
  note wav = writer_fallback [of postStreamRealtime "''audio/ogg''" nothing_supported
      "Some ''audio/wav''" "[1]" True,
      THEN conjunct2, THEN conjunct2, THEN conjunct1, rule_format, OF pre_none]
  note queued = writer_fallback [of n "''audio/ogg''" nothing_supported None "[1]" True,
      THEN conjunct2, THEN conjunct2, THEN conjunct2, THEN conjunct2, THEN conjunct2,
      THEN conjunct2, rule_format, OF pre_n]
  from ogg mp3 wav queued pre_ogg pre_mp3 pre_none pre_n
  have "detectedMimeType detected_ogg = Some ''audio/ogg'' \<and> ''audio/ogg'' \<noteq> []
   \<and> ''audio/ogg'' \<noteq> ''audio/mpeg'' \<and> \<not> mp3_only ''audio/ogg''
   \<and> attempts (calls (sourceopen mp3_only None detected_ogg)) = [''audio/ogg'', ''audio/mpeg'']
   \<and> sourceBuffer (sourceopen mp3_only None detected_ogg) = Some False
   \<and> detectedMimeType unsupported_mp3 = Some ''audio/mpeg'' \<and> \<not> nothing_supported ''audio/mpeg''
   \<and> attempts (calls (sourceopen nothing_supported None unsupported_mp3)) = [''audio/mpeg'']
   \<and> \<not> truthy (detectedMimeType postStreamRealtime)
   \<and> \<not> nothing_supported (choose_mime None (Some ''audio/wav''))
   \<and> attempts (calls (sourceopen nothing_supported (Some ''audio/wav'') postStreamRealtime))
       = [''audio/wav'']
   \<and> position n = AtRead
   \<and> opened n
   \<and> sourceBuffer n = None
   \<and> pendingChunks (feed nothing_supported None n (ReadChunk [1] True)) = [[1]]"
    by (simp add: empty)
  then show ?thesis
    unfolding step_n unfolding n_def .
qed

text \<open>
  The claim as stated fails: when the detected type is \<^verbatim>\<open>audio/mpeg\<close> and the writer
  cannot be created with it, the listener makes one attempt and no retry.
\<close>

theorem writer_fallback_counterexample:
  "detectedMimeType unsupported_mp3 = Some ''audio/mpeg''
   \<and> attempts (calls (sourceopen nothing_supported None unsupported_mp3)) = [''audio/mpeg'']
   \<and> length (attempts (calls (sourceopen nothing_supported None unsupported_mp3))) = 1
   \<and> sourceBuffer (sourceopen nothing_supported None unsupported_mp3) = None"
  by (simp add: unsupported_mp3_def feed_defs nothing_supported_def)

text \<open>
  Claim C2 (the code departs from it). The first chunk arrives while the writer is idle
  and its \<^verbatim>\<open>appendBuffer\<close> throws, so the \<^verbatim>\<open>catch\<close> queues it; the second chunk
  arrives while the writer is still idle and is appended at once, ahead of the queued one,
  which is handed over only at the next \<^verbatim>\<open>updateend\<close>. The chunks reach the writer in the
  order second, first. (As long as no \<^verbatim>\<open>appendBuffer\<close> call throws, the chunks are
  handed over in arrival order, see \<open>submitted_in_arrival_order\<close>.)
\<close>

theorem queued_chunk_overtaken:
  "arrivals (calls (feed_run mp3_only None postStreamRealtime two_chunks)) = [[1, 2], [3]]
   \<and> submissions (calls (feed_run mp3_only None postStreamRealtime two_chunks)) = [[3], [1, 2]]
   \<and> calls (feed_run mp3_only None postStreamRealtime two_chunks)
       = [AddSourceBuffer ''audio/mpeg'', Progress 2 [1, 2], AppendBufferFailed [1, 2],
          Progress 3 [3], AppendBuffer [3], AppendBuffer [1, 2]]"
  by (simp add: two_chunks_def feed_defs mp3_only_def)

text \<open>
  Claim C3 (the code departs from it). One chunk is appended and the writer reports
  \<^verbatim>\<open>updateend\<close>; then the read fails. The \<^verbatim>\<open>catch\<close> sets \<^verbatim>\<open>streamEnded\<close> but does not
  call \<^verbatim>\<open>flushPendingChunks\<close>: the source has ended, the queue is empty, the writer is idle
  and the container is open, yet \<^verbatim>\<open>endOfStream\<close> has not been called, and no later event
  calls it. Had the read reported \<^verbatim>\<open>done\<close> instead, the container would have been
  finalized in that turn; and had the read failed while the writer was still updating, the
  next \<^verbatim>\<open>updateend\<close> would have finalized it. (The converse direction holds in every
  run, see \<open>finalized_only_when_drained\<close>.)
\<close>

theorem failed_read_never_finalizes:
  "streamEnded (feed_run mp3_only None postStreamRealtime failed_read)
   \<and> pendingChunks (feed_run mp3_only None postStreamRealtime failed_read) = []
   \<and> sourceBuffer (feed_run mp3_only None postStreamRealtime failed_read) = Some False
   \<and> media (feed_run mp3_only None postStreamRealtime failed_read) = MS_open
   \<and> (\<forall>es. \<not> finalized (feed_run mp3_only None postStreamRealtime (failed_read @ es)))
   \<and> finalized (feed_run mp3_only None postStreamRealtime (butlast failed_read @ [ReadDone True]))
   \<and> finalized (feed_run mp3_only None postStreamRealtime failed_read_busy)"
proof -
  define s where "s = feed_run mp3_only None postStreamRealtime failed_read"
  have run_app: "feed_run supported rt s0 (es @ es') = feed_run supported rt (feed_run supported rt s0 es) es'"
    for supported rt s0 es es' by (induction es arbitrary: s0) simp_all
  have s: "s = \<lparr>sourceBuffer = Some False, isSourceOpen = True, pendingChunks = [],
     totalBytes = 2, hasFirstChunk = True, streamEnded = True,
     detectedMimeType = Some ''audio/mpeg'', media = MS_open, opened = True,
     position = Finished,
     calls = [AddSourceBuffer ''audio/mpeg'', Progress 2 [1, 2], AppendBuffer [1, 2]]\<rparr>"
    by (simp add: s_def failed_read_def feed_defs mp3_only_def)
  have stay: "feed mp3_only None s e = s" for e
    by (cases e) (simp_all add: s feed_defs)
  have stuck: "feed_run mp3_only None s es = s" for es
    by (induction es) (simp_all add: stay)
  have never: "\<not> finalized (feed_run mp3_only None postStreamRealtime (failed_read @ es))" for es
    unfolding run_app s_def [symmetric] stuck by (simp add: s finalized_def)
  have sibling: "finalized (feed_run mp3_only None postStreamRealtime (butlast failed_read @ [ReadDone True]))"
    by (simp add: failed_read_def feed_defs mp3_only_def finalized_def)
  have busy: "finalized (feed_run mp3_only None postStreamRealtime failed_read_busy)"
    by (simp add: failed_read_busy_def feed_defs mp3_only_def finalized_def)
  have "streamEnded s \<and> pendingChunks s = [] \<and> sourceBuffer s = Some False \<and> media s = MS_open"
    by (simp add: s)
  with never sibling busy show ?thesis unfolding s_def by blast
qed


section \<open>Playback readiness: lemmas and the claim\<close>

lemma feed_first_chunk: "hasFirstChunk s \<Longrightarrow> hasFirstChunk (feed supported rt s e)"
  by (cases e)
    (auto simp: feed_defs split: position.splits option.splits list.splits)

lemma feed_no_writer:
  "isSourceOpen s \<Longrightarrow> sourceBuffer s = None \<Longrightarrow>
   isSourceOpen (feed supported rt s e) \<and> sourceBuffer (feed supported rt s e) = None"
  by (cases e)
    (auto simp: feed_defs split: position.splits option.splits list.splits)

lemma stranded_play: "stranded p \<Longrightarrow> stranded (play ops supported rt p e)"
proof (cases e)
  case (Stream x)
  assume "stranded p"
  with feed_first_chunk [of "stream p" supported rt x] feed_no_writer [of "stream p" supported rt x]
  show ?thesis using Stream by (simp add: stranded_def)
next
  case (Elapse ms)
  assume "stranded p"
  then show ?thesis using Elapse by (simp add: stranded_def)
next
  case (FirstChunkPoll b)
  assume "stranded p"
  then show ?thesis using FirstChunkPoll
    by (simp add: stranded_def tryStartPlayback_def split: option.splits)
next
  case (BufferPoll b)
  assume "stranded p"
  then show ?thesis using BufferPoll
    by (simp add: stranded_def tryStartPlayback_def split: option.splits)
next
  case Deadline
  assume "stranded p"
  then show ?thesis using Deadline
    by (simp add: stranded_def Let_def split: option.splits)
next
  case AudioError
  assume "stranded p"
  then show ?thesis using AudioError by (simp add: stranded_def settle_def)
qed

lemma stranded_run: "stranded p \<Longrightarrow> stranded (play_run ops supported rt p es)"
  by (induction es arbitrary: p) (simp_all add: stranded_play)

lemma play_run_append:
  "play_run ops supported rt p (es @ es') =
   play_run ops supported rt (play_run ops supported rt p es) es'"
  by (induction es arbitrary: p) simp_all

lemma unseen_play: "unseen p \<Longrightarrow> unseen (play ops supported rt p e)"
proof (cases e)
  case (Stream x)
  assume "unseen p"
  with feed_first_chunk [of "stream p" supported rt x]
  show ?thesis using Stream by (auto simp: unseen_def)
next
  case (Elapse ms)
  assume "unseen p"
  then show ?thesis using Elapse by (simp add: unseen_def)
next
  case (FirstChunkPoll b)
  assume "unseen p"
  then show ?thesis using FirstChunkPoll
    by (auto simp: unseen_def tryStartPlayback_def settle_def Let_def split: option.splits)
next
  case (BufferPoll b)
  assume "unseen p"
  then show ?thesis using BufferPoll
    by (auto simp: unseen_def tryStartPlayback_def settle_def Let_def split: option.splits)
next
  case Deadline
  assume "unseen p"
  then show ?thesis using Deadline
    by (auto simp: unseen_def settle_def Let_def split: option.splits)
next
  case AudioError
  assume "unseen p"
  then show ?thesis using AudioError by (auto simp: unseen_def settle_def)
qed

lemma not_ready_before_first_chunk:
  assumes "\<not> hasFirstChunk (stream (play_run ops supported rt playback_start es))"
  shows "outcome (play_run ops supported rt playback_start es) \<noteq> Ready"
proof -
  have "unseen p \<Longrightarrow> unseen (play_run ops supported rt p es)" for p
    by (induction es arbitrary: p) (simp_all add: unseen_play)
  from this [of playback_start] have "unseen (play_run ops supported rt playback_start es)"
    by (simp add: unseen_def playback_start_def)
  with assms show ?thesis by (simp add: unseen_def)
qed

lemma ready_with_writer:
  assumes "bufferCheckInterval p = Some due" and "due \<le> clock p" and "outcome p = Unsettled"
    and "sourceBuffer (stream p) \<noteq> None"
  shows "(outcome (play ops supported rt p (BufferPoll buffered)) = Ready)
       = (d_above_one ops (totalBuffered ops (d_zero ops) buffered)
          \<or> int (clock p) - int (startTime p) > 1000)"
  using assms by (simp add: tryStartPlayback_def settle_def Let_def)

lemma timeout_without_chunk:
  assumes "streamTimeout p = Some due" and "due \<le> clock p" and "outcome p = Unsettled"
    and "\<not> hasFirstChunk (stream p)"
  shows "outcome (play ops supported rt p Deadline) = StreamTimeout"
  using assms by (simp add: settle_def Let_def)

lemma timeout_not_early:
  "clock p < 10000 \<Longrightarrow> streamTimeout p = Some 10000 \<Longrightarrow> play ops supported rt p Deadline = p"
  by simp

text \<open>
  Claim C5 (the code departs from it). The container opens but no writer can be created;
  the first chunk arrives and the 5 ms poll sees it at 5 ms. Every check of
  \<^verbatim>\<open>tryStartPlayback\<close> returns at once because there is no writer, also the one at
  1105 ms, more than 1000 ms after the chunk was seen; the timeout at 10000 ms does not
  reject because a chunk has arrived. The promise is unsettled then, and whatever happens
  later it is never resolved and never rejected as timed out. In the same run with a
  writer, the promise is resolved. (What holds in every run: the promise is not resolved
  before the first chunk has arrived, \<open>not_ready_before_first_chunk\<close>; with a writer,
  a check that is due resolves it exactly when the buffered total is above 1 or more than
  1000 ms have passed since the chunk was seen, \<open>ready_with_writer\<close>; and the timeout,
  which does nothing before 10000 ms, rejects when no chunk has arrived,
  \<open>timeout_without_chunk\<close> and \<open>timeout_not_early\<close>.)
\<close>

theorem readiness_never_settles:
  "hasFirstChunk (stream (play_run ops nothing_supported None playback_start stalled))
   \<and> sourceBuffer (stream (play_run ops nothing_supported None playback_start stalled)) = None
   \<and> startTime (play_run ops nothing_supported None playback_start stalled) = 5
   \<and> clock (play_run ops nothing_supported None playback_start stalled) = 10000
   \<and> outcome (play_run ops nothing_supported None playback_start stalled) = Unsettled
   \<and> (\<forall>es. outcome (play_run ops nothing_supported None playback_start (stalled @ es)) \<noteq> Ready
          \<and> outcome (play_run ops nothing_supported None playback_start (stalled @ es))
              \<noteq> StreamTimeout)
   \<and> outcome (play_run ops mp3_only None playback_start stalled) = Ready"
proof -
  define p where "p = play_run ops nothing_supported None playback_start stalled"
  have fields: "hasFirstChunk (stream p)" "sourceBuffer (stream p) = None" "startTime p = 5"
    "clock p = 10000" "outcome p = Unsettled" "isSourceOpen (stream p)"
    by (simp_all add: p_def stalled_def playback_start_def tryStartPlayback_def settle_def
        feed_defs nothing_supported_def)
  then have "stranded p" by (simp add: stranded_def)
  then have "stranded (play_run ops nothing_supported None p es)" for es
    by (rule stranded_run)
  then have never: "outcome (play_run ops nothing_supported None playback_start (stalled @ es)) \<noteq> Ready
      \<and> outcome (play_run ops nothing_supported None playback_start (stalled @ es)) \<noteq> StreamTimeout"
    for es
    unfolding play_run_append p_def [symmetric] by (simp add: stranded_def)
  have sibling: "outcome (play_run ops mp3_only None playback_start stalled) = Ready"
    by (simp add: stalled_def playback_start_def tryStartPlayback_def settle_def
        feed_defs mp3_only_def)
  from fields(1-5) never sibling show ?thesis
    unfolding p_def by blast
qed

end
